theory Spec2Isabelle
  imports Complex_Main "HOL-Library.Word" "HOL-Library.Sublist"
begin

section \<open>JavaScript strings\<close>

text \<open>
  A JavaScript string is a sequence of 16-bit code units. The literals of the source are
  ASCII and are written \<open>js ''...''\<close>.
\<close>

type_synonym jschar = "16 word"
type_synonym jsstring = "jschar list"

definition cu :: "char \<Rightarrow> jschar" where
  "cu c = of_nat (of_char c)"

definition js :: "string \<Rightarrow> jsstring" where
  "js s = map cu s"

text \<open>
  \<open>String.prototype.trim\<close> strips the code units of the ECMAScript productions
  WhiteSpace and LineTerminator from both ends.
\<close>

definition is_white_space :: "jschar \<Rightarrow> bool" where
  "is_white_space c \<longleftrightarrow>
     c \<in> set [0x9, 0xA, 0xB, 0xC, 0xD, 0x20, 0xA0, 0x1680, 0x2028, 0x2029, 0x202F, 0x205F,
              0x3000, 0xFEFF]
     \<or> (0x2000 \<le> c \<and> c \<le> 0x200A)"

definition trim :: "jsstring \<Rightarrow> jsstring" where
  "trim s = rev (dropWhile is_white_space (rev (dropWhile is_white_space s)))"

text \<open>
  Numbers. \<open>Date.now()\<close> returns an integer, and an integer of magnitude below \<open>2^53\<close>
  is a Number that holds its value exactly and that a template literal and
  \<open>JSON.stringify\<close> print in decimal. The numbers of the model are these integers and the
  three values that are not finite, which \<open>JSON.stringify\<close> writes as \<open>null\<close>; fractions
  and larger magnitudes, which are printed from the digits of a double, are not modelled.
\<close>

definition digit_char :: "nat \<Rightarrow> jschar" where
  "digit_char d = of_nat (48 + d)"

function show_nat :: "nat \<Rightarrow> jsstring" where
  "show_nat n = (if n < 10 then [digit_char n] else show_nat (n div 10) @ [digit_char (n mod 10)])"
  by pat_completeness auto
termination
  by (relation "measure (\<lambda>n. n)") auto

declare show_nat.simps [simp del]

definition show_int :: "int \<Rightarrow> jsstring" where
  "show_int i = (if i < 0 then 0x2D # show_nat (nat (- i)) else show_nat (nat i))"

typedef safe_integer = "{i :: int. \<bar>i\<bar> \<le> 9007199254740991}"
  by (rule exI [of _ 0]) simp

datatype nonfinite = NaN | PosInfinity | NegInfinity

datatype number = Finite safe_integer | NonFinite nonfinite

definition show_number :: "number \<Rightarrow> jsstring" where
  \<comment> \<open>\<open>`${x}`\<close>: \<open>Number::toString\<close>\<close>
  "show_number x =
     (case x of
        Finite i \<Rightarrow> show_int (Rep_safe_integer i)
      | NonFinite NaN \<Rightarrow> js ''NaN''
      | NonFinite PosInfinity \<Rightarrow> js ''Infinity''
      | NonFinite NegInfinity \<Rightarrow> js ''-Infinity'')"

section \<open>JSON values and \<open>JSON.parse\<close>\<close>

text \<open>
  The values of JavaScript that \<open>JSON.parse\<close> can return or that a store can hold. A
  number that \<open>JSON.parse\<close> reads is kept as the exact value of its decimal literal;
  rounding to a double, overflow to an infinity and the sign of zero are not modelled.
  \<open>JNonFinite\<close> are the numbers that no JSON text denotes. An object
  is the list of its own properties in the order they were created; that JavaScript lists
  integer-like keys first is not modelled, and nothing below depends on the order of keys
  other than the five scopes and the four fields of a note.
\<close>

datatype json =
    JNull
  | JBool bool
  | JNum rat
  | JNonFinite nonfinite
  | JStr jsstring
  | JArr "json list"
  | JObj "(jsstring \<times> json) list"

fun put :: "('k \<times> 'v) list \<Rightarrow> 'k \<Rightarrow> 'v \<Rightarrow> ('k \<times> 'v) list" where
  \<comment> \<open>\<open>o[k] = v\<close>: an existing property keeps its place, a new one goes last\<close>
  "put [] k v = [(k, v)]"
| "put ((k', v') # kvs) k v = (if k' = k then (k, v) # kvs else (k', v') # put kvs k v)"

definition get_prop :: "json \<Rightarrow> jsstring \<Rightarrow> json option" where
  \<comment> \<open>\<open>o[k]\<close> for an own property of an object; \<open>None\<close> is \<open>undefined\<close>\<close>
  "get_prop v k = (case v of JObj kvs \<Rightarrow> map_of kvs k | _ \<Rightarrow> None)"

datatype token =
    TLBrace | TRBrace | TLBrack | TRBrack | TColon | TComma
  | TNull | TBool bool | TNum rat | TStr jsstring

definition is_digit :: "jschar \<Rightarrow> bool" where
  "is_digit c \<longleftrightarrow> 0x30 \<le> c \<and> c \<le> 0x39"

definition digit_val :: "jschar \<Rightarrow> nat" where
  "digit_val c = unat c - 48"

definition digits_val :: "jsstring \<Rightarrow> nat" where
  "digits_val ds = foldl (\<lambda>a c. 10 * a + digit_val c) 0 ds"

definition hex_val :: "jschar \<Rightarrow> nat option" where
  "hex_val c =
     (if 0x30 \<le> c \<and> c \<le> 0x39 then Some (unat c - 48)
      else if 0x41 \<le> c \<and> c \<le> 0x46 then Some (unat c - 55)
      else if 0x61 \<le> c \<and> c \<le> 0x66 then Some (unat c - 87)
      else None)"

definition hex4_val :: "jschar \<Rightarrow> jschar \<Rightarrow> jschar \<Rightarrow> jschar \<Rightarrow> jschar option" where
  "hex4_val a b c d =
     (case (hex_val a, hex_val b, hex_val c, hex_val d) of
        (Some x, Some y, Some z, Some w) \<Rightarrow> Some (of_nat (((x * 16 + y) * 16 + z) * 16 + w))
      | _ \<Rightarrow> None)"

definition unescape :: "jschar \<Rightarrow> jschar option" where
  \<comment> \<open>the character after a backslash, \<open>u\<close> apart\<close>
  "unescape e =
     (if e = 0x22 then Some 0x22
      else if e = 0x5C then Some 0x5C
      else if e = 0x2F then Some 0x2F
      else if e = 0x62 then Some 0x8
      else if e = 0x66 then Some 0xC
      else if e = 0x6E then Some 0xA
      else if e = 0x72 then Some 0xD
      else if e = 0x74 then Some 0x9
      else None)"

fun scan_string :: "jschar list \<Rightarrow> (jsstring \<times> jschar list) option" where
  \<comment> \<open>the characters of a string literal after its opening quote, and what follows it\<close>
  "scan_string [] = None"
| "scan_string (c # cs) =
     (if c = 0x22 then Some ([], cs)
      else if c = 0x5C then
        (case cs of
           [] \<Rightarrow> None
         | e # cs' \<Rightarrow>
             if e = 0x75 then
               (case cs' of
                  h1 # h2 # h3 # h4 # cs'' \<Rightarrow>
                    (case hex4_val h1 h2 h3 h4 of
                       None \<Rightarrow> None
                     | Some w \<Rightarrow> map_option (\<lambda>(s, r). (w # s, r)) (scan_string cs''))
                | _ \<Rightarrow> None)
             else
               (case unescape e of
                  None \<Rightarrow> None
                | Some d \<Rightarrow> map_option (\<lambda>(s, r). (d # s, r)) (scan_string cs')))
      else if c < 0x20 then None
      else map_option (\<lambda>(s, r). (c # s, r)) (scan_string cs))"

definition scan_exponent :: "jschar list \<Rightarrow> (int \<times> jschar list) option" where
  \<comment> \<open>an optional exponent part: \<open>e\<close> or \<open>E\<close>, an optional sign, at least one digit\<close>
  "scan_exponent cs =
     (case cs of
        [] \<Rightarrow> Some (0, [])
      | c # r \<Rightarrow>
          if c = 0x65 \<or> c = 0x45 then
            (let neg = (r \<noteq> [] \<and> hd r = 0x2D);
                 r' = (if r \<noteq> [] \<and> (hd r = 0x2D \<or> hd r = 0x2B) then tl r else r);
                 es = takeWhile is_digit r'
             in if es = [] then None
                else Some ((if neg then - int (digits_val es) else int (digits_val es)),
                           dropWhile is_digit r'))
          else Some (0, cs))"

definition scan_fraction :: "jschar list \<Rightarrow> (rat \<times> jschar list) option" where
  \<comment> \<open>an optional fraction part: a point and at least one digit\<close>
  "scan_fraction cs =
     (case cs of
        [] \<Rightarrow> Some (0, [])
      | c # r \<Rightarrow>
          if c = 0x2E then
            (let fs = takeWhile is_digit r
             in if fs = [] then None
                else Some (of_nat (digits_val fs) / 10 ^ length fs, dropWhile is_digit r))
          else Some (0, cs))"

definition scan_number :: "jschar list \<Rightarrow> (rat \<times> jschar list) option" where
  \<comment> \<open>a number literal: sign, integer part without a leading zero, fraction, exponent\<close>
  "scan_number cs =
     (let neg = (cs \<noteq> [] \<and> hd cs = 0x2D);
          cs1 = (if neg then tl cs else cs);
          ds = takeWhile is_digit cs1
      in if ds = [] \<or> (1 < length ds \<and> hd ds = 0x30) then None
         else
           (case scan_fraction (dropWhile is_digit cs1) of
              None \<Rightarrow> None
            | Some (f, cs2) \<Rightarrow>
                (case scan_exponent cs2 of
                   None \<Rightarrow> None
                 | Some (e, cs3) \<Rightarrow>
                     Some ((if neg then - 1 else 1) * (of_nat (digits_val ds) + f) * 10 powi e,
                           cs3))))"

definition is_json_space :: "jschar \<Rightarrow> bool" where
  "is_json_space c \<longleftrightarrow> c = 0x20 \<or> c = 0x9 \<or> c = 0xA \<or> c = 0xD"

lemma scan_string_shorter: "scan_string cs = Some (s, r) \<Longrightarrow> length r < length cs"
proof (induction cs arbitrary: s r rule: scan_string.induct)
  case 1
  then show ?case by simp
next
  case (2 c cs)
  then show ?case
    by (fastforce split: if_splits list.splits option.splits)
qed

lemma scan_exponent_shorter: "scan_exponent cs = Some (e, r) \<Longrightarrow> length r \<le> length cs"
  by (auto simp: scan_exponent_def Let_def split: list.splits if_splits
      intro: le_trans [OF length_dropWhile_le] le_SucI)

lemma scan_fraction_shorter: "scan_fraction cs = Some (f, r) \<Longrightarrow> length r \<le> length cs"
  by (auto simp: scan_fraction_def Let_def split: list.splits if_splits
      intro: le_trans [OF length_dropWhile_le] le_SucI)

lemma scan_number_shorter:
  assumes "scan_number cs = Some (x, r)"
  shows "length r < length cs"
proof -
  define cs1 where "cs1 = (if cs \<noteq> [] \<and> hd cs = 0x2D then tl cs else cs)"
  from assms obtain f cs2 e where
    ds: "takeWhile is_digit cs1 \<noteq> []"
    and f: "scan_fraction (dropWhile is_digit cs1) = Some (f, cs2)"
    and e: "scan_exponent cs2 = Some (e, r)"
    by (auto simp: scan_number_def Let_def cs1_def split: if_splits option.splits)
  have "length (dropWhile is_digit cs1) < length cs1"
    using ds by (cases cs1) (auto simp: le_imp_less_Suc length_dropWhile_le split: if_splits)
  moreover have "length cs1 \<le> length cs"
    by (simp add: cs1_def)
  ultimately show ?thesis
    using scan_fraction_shorter [OF f] scan_exponent_shorter [OF e] by linarith
qed

function scan_tokens :: "jschar list \<Rightarrow> token list option" where
  "scan_tokens [] = Some []"
| "scan_tokens (c # cs) =
     (if is_json_space c then scan_tokens cs
      else if c = 0x7B then map_option ((#) TLBrace) (scan_tokens cs)
      else if c = 0x7D then map_option ((#) TRBrace) (scan_tokens cs)
      else if c = 0x5B then map_option ((#) TLBrack) (scan_tokens cs)
      else if c = 0x5D then map_option ((#) TRBrack) (scan_tokens cs)
      else if c = 0x3A then map_option ((#) TColon) (scan_tokens cs)
      else if c = 0x2C then map_option ((#) TComma) (scan_tokens cs)
      else if c = 0x22 then
        (case scan_string cs of
           None \<Rightarrow> None
         | Some (s, r) \<Rightarrow> map_option ((#) (TStr s)) (scan_tokens r))
      else if take 4 (c # cs) = js ''null'' then map_option ((#) (TNull)) (scan_tokens (drop 3 cs))
      else if take 4 (c # cs) = js ''true'' then
        map_option ((#) (TBool True)) (scan_tokens (drop 3 cs))
      else if take 5 (c # cs) = js ''false'' then
        map_option ((#) (TBool False)) (scan_tokens (drop 4 cs))
      else
        (case scan_number (c # cs) of
           None \<Rightarrow> None
         | Some (x, r) \<Rightarrow> map_option ((#) (TNum x)) (scan_tokens r)))"
  by pat_completeness auto
termination
  by (relation "measure length")
    (auto dest: scan_string_shorter scan_number_shorter simp: less_Suc_eq_le)

declare scan_tokens.simps [simp del]

text \<open>
  The parser reads the tokens from left to right and keeps the containers that are still
  open on a stack.
\<close>

datatype frame =
    FArr "json list"  \<comment> \<open>an open array and its elements so far\<close>
  | FObj "(jsstring \<times> json) list" "jsstring option"
      \<comment> \<open>an open object, its members so far and the key that waits for its value\<close>

datatype mode =
    MValue  \<comment> \<open>a value must follow\<close>
  | MFirstElem  \<comment> \<open>after \<open>[\<close>: a value or \<open>]\<close>\<close>
  | MFirstKey  \<comment> \<open>after \<open>{\<close>: a key or \<open>}\<close>\<close>
  | MKey  \<comment> \<open>after a comma in an object: a key\<close>
  | MColon  \<comment> \<open>after a key\<close>
  | MNext  \<comment> \<open>after a value in a container: a comma or the closing bracket\<close>
  | MDone json  \<comment> \<open>the text was one value; nothing may follow\<close>

fun deliver :: "json \<Rightarrow> frame list \<Rightarrow> (mode \<times> frame list) option" where
  \<comment> \<open>a finished value goes to the container on top of the stack; a key given twice keeps
      its last value\<close>
  "deliver v [] = Some (MDone v, [])"
| "deliver v (FArr xs # st) = Some (MNext, FArr (xs @ [v]) # st)"
| "deliver v (FObj kvs (Some k) # st) = Some (MNext, FObj (put kvs k v) None # st)"
| "deliver v (FObj kvs None # st) = None"

fun open_value :: "token \<Rightarrow> frame list \<Rightarrow> (mode \<times> frame list) option" where
  \<comment> \<open>a token that starts a value\<close>
  "open_value TNull st = deliver JNull st"
| "open_value (TBool b) st = deliver (JBool b) st"
| "open_value (TNum x) st = deliver (JNum x) st"
| "open_value (TStr s) st = deliver (JStr s) st"
| "open_value TLBrack st = Some (MFirstElem, FArr [] # st)"
| "open_value TLBrace st = Some (MFirstKey, FObj [] None # st)"
| "open_value _ st = None"

fun step :: "mode \<times> frame list \<Rightarrow> token \<Rightarrow> (mode \<times> frame list) option" where
  "step (MValue, st) t = open_value t st"
| "step (MFirstElem, FArr xs # st) TRBrack = deliver (JArr xs) st"
| "step (MFirstElem, st) t = open_value t st"
| "step (MFirstKey, FObj kvs k # st) TRBrace = deliver (JObj kvs) st"
| "step (MFirstKey, FObj kvs k # st) (TStr k') = Some (MColon, FObj kvs (Some k') # st)"
| "step (MKey, FObj kvs k # st) (TStr k') = Some (MColon, FObj kvs (Some k') # st)"
| "step (MColon, st) TColon = Some (MValue, st)"
| "step (MNext, FArr xs # st) TComma = Some (MValue, FArr xs # st)"
| "step (MNext, FArr xs # st) TRBrack = deliver (JArr xs) st"
| "step (MNext, FObj kvs k # st) TComma = Some (MKey, FObj kvs k # st)"
| "step (MNext, FObj kvs k # st) TRBrace = deliver (JObj kvs) st"
| "step _ _ = None"

fun run :: "mode \<times> frame list \<Rightarrow> token list \<Rightarrow> (mode \<times> frame list) option" where
  "run c [] = Some c"
| "run c (t # ts) = (case step c t of None \<Rightarrow> None | Some c' \<Rightarrow> run c' ts)"

definition JSON_parse :: "jsstring \<Rightarrow> json option" where
  \<comment> \<open>\<open>None\<close>: \<open>JSON.parse\<close> throws a SyntaxError\<close>
  "JSON_parse raw =
     (case scan_tokens raw of
        None \<Rightarrow> None
      | Some ts \<Rightarrow> (case run (MValue, []) ts of Some (MDone v, []) \<Rightarrow> Some v | _ \<Rightarrow> None))"

section \<open>Data model\<close>

text \<open>\<open>SCOPES\<close>, \<open>Scope\<close>, \<open>Note\<close> and \<open>Store\<close> of \<^verbatim>\<open>src/store/store.ts\<close>.\<close>

datatype scope = Today | Week | Month | Semester | Year

definition SCOPES :: "scope list" where
  "SCOPES = [Today, Week, Month, Semester, Year]"

fun scope_name :: "scope \<Rightarrow> jsstring" where
  "scope_name Today = js ''today''"
| "scope_name Week = js ''week''"
| "scope_name Month = js ''month''"
| "scope_name Semester = js ''semester''"
| "scope_name Year = js ''year''"

record Note =
  note_id :: jsstring
  note_text :: jsstring
  createdAt :: number
  note_done :: bool

text \<open>
  A store is a JavaScript object keyed by scope. The type \<open>Record<Scope, Note[]>\<close> promises
  that every key is there; the object itself may lack one, and then \<open>s[scope]\<close> is
  \<open>undefined\<close>. The map keeps that case: \<open>s sc = None\<close>.
\<close>

type_synonym Store = "scope \<rightharpoonup> Note list"

definition emptyStore :: Store where
  "emptyStore = [Today \<mapsto> [], Week \<mapsto> [], Month \<mapsto> [], Semester \<mapsto> [], Year \<mapsto> []]"

definition all_scopes_present :: "Store \<Rightarrow> bool" where
  "all_scopes_present s \<longleftrightarrow> list_all (\<lambda>sc. s sc \<noteq> None) SCOPES"

datatype js_error = TypeError | SecurityError | QuotaExceededError

section \<open>\<open>JSON.stringify\<close> of a store\<close>

text \<open>
  \<open>QuoteJSONString\<close>: the quote, the backslash and the control characters are escaped, a
  surrogate that is not half of a pair is written as \<open>\uXXXX\<close> in lower-case hex, and every
  other code unit stands for itself.
\<close>

definition hex_char :: "nat \<Rightarrow> jschar" where
  "hex_char d = (if d < 10 then of_nat (48 + d) else of_nat (87 + d))"

definition unicode_escape :: "jschar \<Rightarrow> jsstring" where
  "unicode_escape c =
     (let n = unat c
      in [0x5C, 0x75, hex_char (n div 4096), hex_char (n div 256 mod 16),
          hex_char (n div 16 mod 16), hex_char (n mod 16)])"

definition is_high_surrogate :: "jschar \<Rightarrow> bool" where
  "is_high_surrogate c \<longleftrightarrow> 0xD800 \<le> c \<and> c \<le> 0xDBFF"

definition is_low_surrogate :: "jschar \<Rightarrow> bool" where
  "is_low_surrogate c \<longleftrightarrow> 0xDC00 \<le> c \<and> c \<le> 0xDFFF"

definition quote_unit :: "jschar \<Rightarrow> jsstring" where
  "quote_unit c =
     (if c = 0x8 then [0x5C, 0x62]
      else if c = 0x9 then [0x5C, 0x74]
      else if c = 0xA then [0x5C, 0x6E]
      else if c = 0xC then [0x5C, 0x66]
      else if c = 0xD then [0x5C, 0x72]
      else if c = 0x22 then [0x5C, 0x22]
      else if c = 0x5C then [0x5C, 0x5C]
      else if c < 0x20 \<or> is_high_surrogate c \<or> is_low_surrogate c then unicode_escape c
      else [c])"

fun quote_chars :: "jsstring \<Rightarrow> jsstring" where
  "quote_chars [] = []"
| "quote_chars [c] = quote_unit c"
| "quote_chars (c # d # cs) =
     (if is_high_surrogate c \<and> is_low_surrogate d then c # d # quote_chars cs
      else quote_unit c @ quote_chars (d # cs))"

definition quote :: "jsstring \<Rightarrow> jsstring" where
  "quote s = 0x22 # quote_chars s @ [0x22]"

fun join_with :: "'a \<Rightarrow> 'a list list \<Rightarrow> 'a list" where
  "join_with sep [] = []"
| "join_with sep [x] = x"
| "join_with sep (x # y # xs) = x @ sep # join_with sep (y # xs)"

text \<open>
  A note is written with its properties in the order of the object literal of \<open>addNote\<close>
  (\<open>id\<close>, \<open>text\<close>, \<open>createdAt\<close>, \<open>done\<close>), a store with those of \<open>emptyStore\<close>; a scope
  the store lacks is not written.
\<close>

definition stringify_number :: "number \<Rightarrow> jsstring" where
  \<comment> \<open>a finite number is written as \<open>Number::toString\<close> prints it, any other as \<open>null\<close>\<close>
  "stringify_number x = (case x of Finite i \<Rightarrow> show_number x | NonFinite y \<Rightarrow> js ''null'')"

definition stringify_member :: "jsstring \<Rightarrow> jsstring \<Rightarrow> jsstring" where
  "stringify_member k v = quote k @ 0x3A # v"

definition stringify_note :: "Note \<Rightarrow> jsstring" where
  "stringify_note n =
     0x7B # join_with 0x2C
       [stringify_member (js ''id'') (quote (note_id n)),
        stringify_member (js ''text'') (quote (note_text n)),
        stringify_member (js ''createdAt'') (stringify_number (createdAt n)),
        stringify_member (js ''done'') (if note_done n then js ''true'' else js ''false'')]
     @ [0x7D]"

definition stringify_notes :: "Note list \<Rightarrow> jsstring" where
  "stringify_notes ns = 0x5B # join_with 0x2C (map stringify_note ns) @ [0x5D]"

definition present_scopes :: "Store \<Rightarrow> (scope \<times> Note list) list" where
  "present_scopes s = List.map_filter (\<lambda>sc. map_option (Pair sc) (s sc)) SCOPES"

definition stringify_store :: "Store \<Rightarrow> jsstring" where
  "stringify_store s =
     0x7B # join_with 0x2C
       (map (\<lambda>(sc, ns). stringify_member (scope_name sc) (stringify_notes ns)) (present_scopes s))
     @ [0x7D]"

text \<open>The JavaScript value that a note or a store is.\<close>

definition js_of_number :: "number \<Rightarrow> json" where
  "js_of_number x =
     (case x of Finite i \<Rightarrow> JNum (of_int (Rep_safe_integer i)) | NonFinite y \<Rightarrow> JNonFinite y)"

definition js_of_note :: "Note \<Rightarrow> json" where
  "js_of_note n =
     JObj [(js ''id'', JStr (note_id n)), (js ''text'', JStr (note_text n)),
           (js ''createdAt'', js_of_number (createdAt n)), (js ''done'', JBool (note_done n))]"

definition js_of_store :: "Store \<Rightarrow> json" where
  "js_of_store s =
     JObj (map (\<lambda>(sc, ns). (scope_name sc, JArr (map js_of_note ns))) (present_scopes s))"

section \<open>Persistence\<close>

text \<open>
  \<open>localStorage\<close>: reading or writing throws when access is denied, writing throws when the
  quota is exceeded.
\<close>

record storage =
  denied :: bool
  quota :: nat
  items :: "(jsstring \<times> jsstring) list"

definition getItem :: "storage \<Rightarrow> jsstring \<Rightarrow> js_error + jsstring option" where
  "getItem st k = (if denied st then Inl SecurityError else Inr (map_of (items st) k))"


definition LS_KEY :: jsstring where
  "LS_KEY = js ''priorityNotes.v1''"

text \<open>
  The own enumerable properties that an object spread copies: the members of an object, the
  elements of an array and the characters of a string under their indices, nothing for
  \<open>null\<close>, a boolean or a number.
\<close>

definition own_props :: "json \<Rightarrow> (jsstring \<times> json) list" where
  "own_props v =
     (case v of
        JObj kvs \<Rightarrow> kvs
      | JArr xs \<Rightarrow> zip (map show_nat [0..<length xs]) xs
      | JStr cs \<Rightarrow> zip (map show_nat [0..<length cs]) (map (\<lambda>c. JStr [c]) cs)
      | _ \<Rightarrow> [])"

definition spread :: "(jsstring \<times> json) list \<Rightarrow> json \<Rightarrow> (jsstring \<times> json) list" where
  \<comment> \<open>\<open>{ ...target, ...v }\<close>\<close>
  "spread target v = foldl (\<lambda>acc (k, x). put acc k x) target (own_props v)"

definition loadStore :: "storage \<Rightarrow> json" where
  \<comment> \<open>lines 51-61; the result is what the cast \<open>as Store\<close> is applied to\<close>
  "loadStore st =
     (let empty = js_of_store emptyStore
      in case getItem st LS_KEY of
           Inl e \<Rightarrow> empty
         | Inr None \<Rightarrow> empty
         | Inr (Some raw) \<Rightarrow>
             if raw = [] then empty
             else
               (case JSON_parse raw of
                  None \<Rightarrow> empty
                | Some parsed \<Rightarrow> JObj (spread (spread [] empty) parsed)))"


section \<open>State updaters\<close>

text \<open>
  The functions handed to \<open>setStore\<close>. Each builds \<open>{ ...s, [scope]: e }\<close>. Where \<open>e\<close>
  spreads \<open>s[scope]\<close> or calls \<open>.map\<close> or \<open>.filter\<close> on it, an absent key makes the
  updater throw a TypeError.
\<close>

definition insert_upd :: "scope \<Rightarrow> Note \<Rightarrow> Store \<Rightarrow> js_error + Store" where
  \<comment> \<open>line 93: \<open>(s) => ({ ...s, [scope]: [optimistic, ...s[scope]] })\<close>\<close>
  "insert_upd sc optimistic s =
     (case s sc of None \<Rightarrow> Inl TypeError | Some ns \<Rightarrow> Inr (s(sc \<mapsto> optimistic # ns)))"

definition replaceIdentifier :: "scope \<Rightarrow> jsstring \<Rightarrow> jsstring \<Rightarrow> Store \<Rightarrow> js_error + Store" where
  \<comment> \<open>lines 112-117: \<open>s[scope].map((n) => n.id === tempId ? { ...n, id: data.id! } : n)\<close>\<close>
  "replaceIdentifier sc oldId newId s =
     (case s sc of None \<Rightarrow> Inl TypeError
      | Some ns \<Rightarrow>
          Inr (s(sc \<mapsto> map (\<lambda>n. if note_id n = oldId then n\<lparr>note_id := newId\<rparr> else n) ns)))"

definition remove_upd :: "scope \<Rightarrow> jsstring \<Rightarrow> Store \<Rightarrow> js_error + Store" where
  \<comment> \<open>lines 122-125 and 139-142: \<open>s[scope].filter((n) => n.id !== id)\<close>\<close>
  "remove_upd sc i s =
     (case s sc of None \<Rightarrow> Inl TypeError
      | Some ns \<Rightarrow> Inr (s(sc \<mapsto> filter (\<lambda>n. note_id n \<noteq> i) ns)))"

definition toggle_upd :: "scope \<Rightarrow> jsstring \<Rightarrow> Store \<Rightarrow> js_error + Store" where
  \<comment> \<open>lines 132-135: \<open>s[scope].map((n) => (n.id === id ? { ...n, done: !n.done } : n))\<close>\<close>
  "toggle_upd sc i s =
     (case s sc of None \<Rightarrow> Inl TypeError
      | Some ns \<Rightarrow>
          Inr (s(sc \<mapsto> map (\<lambda>n. if note_id n = i then n\<lparr>note_done := \<not> note_done n\<rparr> else n) ns)))"

definition clear_upd :: "scope \<Rightarrow> Store \<Rightarrow> Store" where
  \<comment> \<open>line 147: \<open>(s) => ({ ...s, [scope]: [] })\<close>\<close>
  "clear_upd sc s = s(sc \<mapsto> [])"

section \<open>The widget\<close>

text \<open>
  The component state (\<open>scope\<close>, \<open>input\<close>, \<open>store\<close>) and what the component has done to
  the outside: the requests it sent, the alerts it raised, the errors it logged.
\<close>

datatype effect =
    Post jsstring scope jsstring  \<comment> \<open>\<open>fetch(API_URL, { method: "POST", body: { priorityScope, priorities } })\<close>\<close>
  | Alert jsstring
  | ConsoleError

record widget =
  scope :: scope
  input :: jsstring
  store :: Store
  effects :: "effect list"

definition set_store :: "(Store \<Rightarrow> js_error + Store) \<Rightarrow> widget \<Rightarrow> js_error + widget" where
  \<comment> \<open>\<open>setStore(f)\<close>: the updater runs on the current store; if it throws, rendering fails.\<close>
  "set_store f w = (case f (store w) of Inl e \<Rightarrow> Inl e | Inr s \<Rightarrow> Inr (w\<lparr>store := s\<rparr>))"

definition toggleDone :: "jsstring \<Rightarrow> widget \<Rightarrow> js_error + widget" where
  "toggleDone i w = set_store (toggle_upd (scope w) i) w"

definition removeNote :: "jsstring \<Rightarrow> widget \<Rightarrow> js_error + widget" where
  "removeNote i w = set_store (remove_upd (scope w) i) w"

definition clearAll :: "bool \<Rightarrow> widget \<Rightarrow> js_error + widget" where
  \<comment> \<open>\<open>confirmed\<close> is the answer of \<open>window.confirm\<close>\<close>
  "clearAll confirmed w =
     (if \<not> confirmed then Inr w else set_store (\<lambda>s. Inr (clear_upd (scope w) s)) w)"

section \<open>\<open>addNote\<close>\<close>

text \<open>
  What \<open>addNote\<close> reads from its environment: the two readings of \<open>Date.now()\<close> and the
  string \<open>Math.random().toString(16).slice(2)\<close>.
\<close>

record env =
  now_id :: safe_integer
  random_hex :: jsstring
  now_created :: safe_integer

text \<open>
  How the request ends: \<open>fetch\<close> rejects, or it resolves to a response with a status and a
  body. \<open>resp.json()\<close> rejects on a malformed body and otherwise resolves to a
  \<open>CreateNoteResponse\<close>, \<open>{ id?: string }\<close>, or to \<open>null\<close>.
\<close>

type_synonym CreateNoteResponse = "jsstring option"

datatype body = Malformed | Data "CreateNoteResponse option"

datatype fetch_outcome = NetworkFault | Response nat body

definition response_ok :: "nat \<Rightarrow> bool" where
  "response_ok status \<longleftrightarrow> 200 \<le> status \<and> status \<le> 299"

definition API_URL :: jsstring where
  "API_URL = js ''https://ubhacking2025-ubprioritize-ai.onrender.com/api/schedule/priorityschedule''"

definition request_body :: "scope \<Rightarrow> jsstring \<Rightarrow> jsstring" where
  \<comment> \<open>\<open>JSON.stringify({ priorityScope: scope, priorities: text })\<close>\<close>
  "request_body sc t =
     0x7B # join_with 0x2C
       [stringify_member (js ''priorityScope'') (quote (scope_name sc)),
        stringify_member (js ''priorities'') (quote t)]
     @ [0x7D]"

definition temp_id :: "env \<Rightarrow> jsstring" where
  \<comment> \<open>line 85\<close>
  "temp_id e = js ''tmp-'' @ show_number (Finite (now_id e)) @ js ''-'' @ random_hex e"

definition add_effect :: "effect \<Rightarrow> widget \<Rightarrow> widget" where
  "add_effect x w = w\<lparr>effects := effects w @ [x]\<rparr>"

definition addNote_start :: "env \<Rightarrow> widget \<Rightarrow> js_error + widget \<times> (scope \<times> jsstring) option" where
  \<comment> \<open>lines 81-105, up to the \<open>await\<close>; the second component is the scope and the temporary
      id that the rest of the call holds, \<open>None\<close> after the early return\<close>
  "addNote_start e w =
     (let t = trim (input w)
      in if t = [] then Inr (w, None)
         else
           (let tempId = temp_id e;
                optimistic = \<lparr>note_id = tempId, note_text = t, createdAt = Finite (now_created e),
                              note_done = False\<rparr>
            in case set_store (insert_upd (scope w) optimistic) w of
                 Inl err \<Rightarrow> Inl err
               | Inr w' \<Rightarrow>
                   Inr (add_effect (Post API_URL (scope w) (request_body (scope w) t))
                          (w'\<lparr>input := []\<rparr>),
                        Some (scope w, tempId))))"

definition rollback :: "scope \<Rightarrow> jsstring \<Rightarrow> widget \<Rightarrow> js_error + widget" where
  \<comment> \<open>lines 119-127, the \<open>catch\<close> block\<close>
  "rollback sc tempId w =
     (case set_store (remove_upd sc tempId) (add_effect ConsoleError w) of
        Inl err \<Rightarrow> Inl err
      | Inr w' \<Rightarrow> Inr (add_effect (Alert (js ''Could not save note. Please try again.'')) w'))"

definition addNote_settle :: "scope \<Rightarrow> jsstring \<Rightarrow> fetch_outcome \<Rightarrow> widget \<Rightarrow> js_error + widget" where
  \<comment> \<open>lines 107-127, after the \<open>await\<close>\<close>
  "addNote_settle sc tempId outcome w =
     (case outcome of
        NetworkFault \<Rightarrow> rollback sc tempId w
      | Response status b \<Rightarrow>
          if \<not> response_ok status then rollback sc tempId w
          else
            (case b of
               Malformed \<Rightarrow> rollback sc tempId w
             | Data None \<Rightarrow> Inr w
             | Data (Some None) \<Rightarrow> Inr w
             | Data (Some (Some newId)) \<Rightarrow>
                 if newId = [] then Inr w else set_store (replaceIdentifier sc tempId newId) w))"

definition addNote :: "env \<Rightarrow> fetch_outcome \<Rightarrow> widget \<Rightarrow> js_error + widget" where
  \<comment> \<open>a call that settles with nothing else touching the widget while the request is out\<close>
  "addNote e outcome w =
     (case addNote_start e w of
        Inl err \<Rightarrow> Inl err
      | Inr (w', None) \<Rightarrow> Inr w'
      | Inr (w', Some (sc, tempId)) \<Rightarrow> addNote_settle sc tempId outcome w')"

section \<open>Notions used in the proofs\<close>

text \<open>
  The tokens that the text of a note, of a list of notes and of a store consists of, the
  value that this text is read as, the invariant of the parser (no open or finished object
  has a key twice), and the store with its missing scopes filled.
\<close>

definition number_end :: "jschar list \<Rightarrow> bool" where
  "number_end r \<longleftrightarrow> (case r of [] \<Rightarrow> True | c # _ \<Rightarrow> \<not> is_digit c \<and> c \<noteq> 0x2E \<and> c \<noteq> 0x65 \<and> c \<noteq> 0x45)"

definition member_tokens :: "jsstring \<Rightarrow> token list \<Rightarrow> token list" where
  "member_tokens k ts = TStr k # TColon # ts"

definition number_token :: "number \<Rightarrow> token" where
  "number_token x = (case x of Finite i \<Rightarrow> TNum (of_int (Rep_safe_integer i)) | NonFinite y \<Rightarrow> TNull)"

definition note_tokens :: "Note \<Rightarrow> token list" where
  "note_tokens n =
     TLBrace # join_with TComma
       [member_tokens (js ''id'') [TStr (note_id n)],
        member_tokens (js ''text'') [TStr (note_text n)],
        member_tokens (js ''createdAt'') [number_token (createdAt n)],
        member_tokens (js ''done'') [TBool (note_done n)]]
     @ [TRBrace]"

definition notes_tokens :: "Note list \<Rightarrow> token list" where
  "notes_tokens ns = TLBrack # join_with TComma (map note_tokens ns) @ [TRBrack]"

definition store_tokens :: "Store \<Rightarrow> token list" where
  "store_tokens s =
     TLBrace # join_with TComma
       (map (\<lambda>(sc, ns). member_tokens (scope_name sc) (notes_tokens ns)) (present_scopes s))
     @ [TRBrace]"

definition prepend :: "token list \<Rightarrow> token list option \<Rightarrow> token list option" where
  "prepend ts x = map_option ((@) ts) x"

definition value_mode :: "mode \<Rightarrow> bool" where
  "value_mode m \<longleftrightarrow> m = MValue \<or> m = MFirstElem"

definition key_mode :: "mode \<Rightarrow> bool" where
  "key_mode m \<longleftrightarrow> m = MFirstKey \<or> m = MKey"

definition written_number :: "number \<Rightarrow> json" where
  \<comment> \<open>the value that the text of a number is read as\<close>
  "written_number x =
     (case x of Finite i \<Rightarrow> JNum (of_int (Rep_safe_integer i)) | NonFinite y \<Rightarrow> JNull)"

definition written_note :: "Note \<Rightarrow> json" where
  "written_note n =
     JObj [(js ''id'', JStr (note_id n)), (js ''text'', JStr (note_text n)),
           (js ''createdAt'', written_number (createdAt n)), (js ''done'', JBool (note_done n))]"

definition store_member :: "scope \<times> Note list \<Rightarrow> jsstring \<times> json" where
  "store_member p = (scope_name (fst p), JArr (map written_note (snd p)))"

definition written_store :: "Store \<Rightarrow> json" where
  \<comment> \<open>the value that the text of a store is read as\<close>
  "written_store s = JObj (map store_member (present_scopes s))"

definition is_finite :: "number \<Rightarrow> bool" where
  "is_finite x = (case x of Finite i \<Rightarrow> True | NonFinite y \<Rightarrow> False)"

definition finite_timestamps :: "Store \<Rightarrow> bool" where
  \<comment> \<open>every \<open>createdAt\<close> in the store is a finite number\<close>
  "finite_timestamps s \<longleftrightarrow>
     list_all (\<lambda>sc. case s sc of None \<Rightarrow> True
                        | Some ns \<Rightarrow> list_all (\<lambda>n. is_finite (createdAt n)) ns) SCOPES"


fun frame_ok :: "frame \<Rightarrow> bool" where
  "frame_ok (FArr xs) = True"
| "frame_ok (FObj kvs k) = distinct (map fst kvs)"

definition distinct_keys :: "json \<Rightarrow> bool" where
  "distinct_keys v = (case v of JObj kvs \<Rightarrow> distinct (map fst kvs) | _ \<Rightarrow> True)"

definition config_ok :: "mode \<times> frame list \<Rightarrow> bool" where
  "config_ok c = (list_all frame_ok (snd c) \<and> (case fst c of MDone v \<Rightarrow> distinct_keys v | _ \<Rightarrow> True))"

section \<open>Reading results\<close>

definition notes_after :: "js_error + widget \<Rightarrow> scope \<Rightarrow> Note list option" where
  \<comment> \<open>\<open>store[scope]\<close> once an operation has returned\<close>
  "notes_after r sc = (case r of Inl e \<Rightarrow> None | Inr w \<Rightarrow> store w sc)"

definition effects_after :: "js_error + widget \<Rightarrow> effect list" where
  "effects_after r = (case r of Inl e \<Rightarrow> [] | Inr w \<Rightarrow> effects w)"

definition failed :: "fetch_outcome \<Rightarrow> bool" where
  \<comment> \<open>the request fails: a network fault, a status outside 200-299, a malformed body\<close>
  "failed outcome =
     (case outcome of
        NetworkFault \<Rightarrow> True
      | Response status b \<Rightarrow> \<not> response_ok status \<or> b = Malformed)"

section \<open>Example data\<close>

definition at_ms :: "int \<Rightarrow> number" where
  "at_ms i = Finite (Abs_safe_integer i)"

definition note_a :: Note where
  "note_a = \<lparr>note_id = js ''a'', note_text = js ''Read chapter 3'', createdAt = at_ms 1700000000000,
             note_done = False\<rparr>"

definition note_b :: Note where
  "note_b = \<lparr>note_id = js ''b'', note_text = js ''Call home'', createdAt = at_ms 1700000005000,
             note_done = True\<rparr>"

definition store_ab :: Store where
  "store_ab = emptyStore(Today \<mapsto> [note_a, note_b], Week \<mapsto> [note_b])"

definition widget_ab :: widget where
  "widget_ab = \<lparr>scope = Today, input = js ''   '', store = store_ab, effects = []\<rparr>"

definition widget_ab_milk :: widget where
  "widget_ab_milk = \<lparr>scope = Today, input = js ''Buy milk'', store = store_ab, effects = []\<rparr>"

definition widget_milk :: widget where
  "widget_milk = \<lparr>scope = Today, input = js ''Buy milk'', store = emptyStore, effects = []\<rparr>"

definition env_5 :: env where
  "env_5 = \<lparr>now_id = Abs_safe_integer 5, random_hex = js ''abc'',
             now_created = Abs_safe_integer 6\<rparr>"

definition note_tmp :: Note where
  "note_tmp = \<lparr>note_id = js ''tmp-5-abc'', note_text = js ''Pay rent'', createdAt = at_ms 5,
               note_done = False\<rparr>"

definition widget_tmp :: widget where
  "widget_tmp = \<lparr>scope = Today, input = js ''Buy milk'', store = emptyStore(Today \<mapsto> [note_tmp]),
                 effects = []\<rparr>"



definition storage_fresh :: storage where
  "storage_fresh = \<lparr>denied = False, quota = 5000000, items = []\<rparr>"

definition storage_denied :: storage where
  "storage_denied = \<lparr>denied = True, quota = 5000000, items = []\<rparr>"

definition raw_today_5 :: jsstring where
  \<comment> \<open>the text \<open>{"today":5}\<close>\<close>
  "raw_today_5 = 0x7B # quote (js ''today'') @ js '':5}''"

definition storage_today_5 :: storage where
  "storage_today_5 = \<lparr>denied = False, quota = 5000000, items = [(LS_KEY, raw_today_5)]\<rparr>"

definition raw_week_null :: jsstring where
  \<comment> \<open>the text \<open>{"week":null}\<close>\<close>
  "raw_week_null = 0x7B # quote (js ''week'') @ js '':null}''"

definition storage_week_null :: storage where
  "storage_week_null = \<lparr>denied = False, quota = 5000000, items = [(LS_KEY, raw_week_null)]\<rparr>"

definition storage_garbage :: storage where
  "storage_garbage = \<lparr>denied = False, quota = 5000000, items = [(LS_KEY, js ''{oops'')]\<rparr>"

definition raw_week_b :: jsstring where
  \<comment> \<open>the text \<open>{"week":[b]}\<close>, \<open>b\<close> the note \<open>note_b\<close> as \<open>JSON.stringify\<close> writes it\<close>
  "raw_week_b = 0x7B # quote (js ''week'') @ 0x3A # stringify_notes [note_b] @ [0x7D]"

definition storage_week_b :: storage where
  "storage_week_b = \<lparr>denied = False, quota = 5000000, items = [(LS_KEY, raw_week_b)]\<rparr>"

section \<open>Local operations\<close>

lemma map_upd_same: "s sc = Some ns \<Longrightarrow> s(sc \<mapsto> ns) = s"
  by (rule map_upd_triv)

lemma filter_absent: "\<forall>n\<in>set ns. note_id n \<noteq> i \<Longrightarrow> filter (\<lambda>n. note_id n \<noteq> i) ns = ns"
  by (induction ns) auto

lemma map_absent:
  "\<forall>n\<in>set ns. note_id n \<noteq> i \<Longrightarrow> map (\<lambda>n. if note_id n = i then f n else n) ns = ns"
  by (induction ns) auto

lemma widget_store_same: "w\<lparr>store := store w\<rparr> = w"
  by simp

text \<open>
  C8. Clearing a scope gives that scope the empty sequence and leaves the sequence of every
  other scope as it was. \<open>clearAll\<close> does this once the user has confirmed, and does
  nothing when the user declines.
\<close>

theorem clear_is_scope_local:
  "clear_upd sc s sc = Some []
   \<and> (\<forall>sc'. sc' \<noteq> sc \<longrightarrow> clear_upd sc s sc' = s sc')
   \<and> clearAll True w = Inr (w\<lparr>store := clear_upd (scope w) (store w)\<rparr>)
   \<and> clearAll False w = Inr w"
  by (simp add: clear_upd_def clearAll_def set_store_def)

theorem clear_is_scope_local_witness:
  "clear_upd Week store_ab Week = Some []
   \<and> Today \<noteq> Week \<and> clear_upd Week store_ab Today = Some [note_a, note_b]"
proof -
  have "store_ab Today = Some [note_a, note_b]"
    by (simp add: store_ab_def)
  then show ?thesis
    using clear_is_scope_local [of Week store_ab] by simp
qed

text \<open>
  C9. In a store that has the selected scope, \<open>toggleDone\<close> and \<open>removeNote\<close> raise no
  error. With an id that no note of the scope carries they return the widget as it was.
  Otherwise \<open>toggleDone\<close> keeps every note in its place, negates \<open>done\<close> on the notes with
  that id and changes nothing else, and \<open>removeNote\<close> keeps, in their order, the notes with
  another id and only those; neither touches another scope.
\<close>

theorem toggle_and_remove:
  assumes "store w (scope w) = Some ns"
  shows "((\<forall>n\<in>set ns. note_id n \<noteq> i) \<longrightarrow> toggleDone i w = Inr w \<and> removeNote i w = Inr w)
    \<and> (\<exists>ns'. toggleDone i w = Inr (w\<lparr>store := (store w)(scope w \<mapsto> ns')\<rparr>)
          \<and> length ns' = length ns
          \<and> (\<forall>k<length ns.
                (note_id (ns ! k) = i \<longrightarrow> ns' ! k = (ns ! k)\<lparr>note_done := \<not> note_done (ns ! k)\<rparr>)
                \<and> (note_id (ns ! k) \<noteq> i \<longrightarrow> ns' ! k = ns ! k)))
    \<and> (\<exists>ns'. removeNote i w = Inr (w\<lparr>store := (store w)(scope w \<mapsto> ns')\<rparr>)
          \<and> subseq ns' ns
          \<and> (\<forall>n. n \<in> set ns' \<longleftrightarrow> n \<in> set ns \<and> note_id n \<noteq> i)
          \<and> (\<forall>n. note_id n \<noteq> i \<longrightarrow> count_list ns' n = count_list ns n))"
proof (intro conjI impI)
  assume absent: "\<forall>n\<in>set ns. note_id n \<noteq> i"
  show "toggleDone i w = Inr w"
    using assms map_absent [OF absent]
    by (simp add: toggleDone_def set_store_def toggle_upd_def map_upd_same)
  show "removeNote i w = Inr w"
    using assms filter_absent [OF absent]
    by (simp add: removeNote_def set_store_def remove_upd_def map_upd_same)
next
  let ?ns' = "map (\<lambda>n. if note_id n = i then n\<lparr>note_done := \<not> note_done n\<rparr> else n) ns"
  have "toggleDone i w = Inr (w\<lparr>store := (store w)(scope w \<mapsto> ?ns')\<rparr>)"
    using assms by (simp add: toggleDone_def set_store_def toggle_upd_def)
  moreover have "length ?ns' = length ns"
    by simp
  moreover have "\<forall>k<length ns.
      (note_id (ns ! k) = i \<longrightarrow> ?ns' ! k = (ns ! k)\<lparr>note_done := \<not> note_done (ns ! k)\<rparr>)
      \<and> (note_id (ns ! k) \<noteq> i \<longrightarrow> ?ns' ! k = ns ! k)"
    by simp
  ultimately show "\<exists>ns'. toggleDone i w = Inr (w\<lparr>store := (store w)(scope w \<mapsto> ns')\<rparr>)
      \<and> length ns' = length ns
      \<and> (\<forall>k<length ns.
            (note_id (ns ! k) = i \<longrightarrow> ns' ! k = (ns ! k)\<lparr>note_done := \<not> note_done (ns ! k)\<rparr>)
            \<and> (note_id (ns ! k) \<noteq> i \<longrightarrow> ns' ! k = ns ! k))"
    by blast
next
  let ?ns' = "filter (\<lambda>n. note_id n \<noteq> i) ns"
  have "removeNote i w = Inr (w\<lparr>store := (store w)(scope w \<mapsto> ?ns')\<rparr>)"
    using assms by (simp add: removeNote_def set_store_def remove_upd_def)
  moreover have "subseq ?ns' ns"
    by simp
  moreover have "\<forall>n. n \<in> set ?ns' \<longleftrightarrow> n \<in> set ns \<and> note_id n \<noteq> i"
    by auto
  moreover have "\<forall>n. note_id n \<noteq> i \<longrightarrow> count_list ?ns' n = count_list ns n"
    by (induction ns) auto
  ultimately show "\<exists>ns'. removeNote i w = Inr (w\<lparr>store := (store w)(scope w \<mapsto> ns')\<rparr>)
      \<and> subseq ns' ns
      \<and> (\<forall>n. n \<in> set ns' \<longleftrightarrow> n \<in> set ns \<and> note_id n \<noteq> i)
      \<and> (\<forall>n. note_id n \<noteq> i \<longrightarrow> count_list ns' n = count_list ns n)"
    by blast
qed

theorem toggle_and_remove_witness:
  "store widget_ab (scope widget_ab) = Some [note_a, note_b]
   \<and> note_id note_a \<noteq> js ''c'' \<and> note_id note_b \<noteq> js ''c''
   \<and> toggleDone (js ''c'') widget_ab = Inr widget_ab
   \<and> removeNote (js ''c'') widget_ab = Inr widget_ab"
proof -
  have h: "store widget_ab (scope widget_ab) = Some [note_a, note_b]"
    by (simp add: widget_ab_def store_ab_def)
  have absent: "\<forall>n\<in>set [note_a, note_b]. note_id n \<noteq> js ''c''"
    by (simp add: note_a_def note_b_def js_def cu_def)
  from toggle_and_remove [OF h, of "js ''c''"] absent h show ?thesis
    by simp
qed

text \<open>
  C6. In a store that has the scope, replacing \<open>oldId\<close> by \<open>newId\<close> raises no error, keeps
  the length of the scope's sequence and every other scope, and at each position keeps
  \<open>text\<close>, \<open>createdAt\<close> and \<open>done\<close>; a note whose id is \<open>oldId\<close> gets the id \<open>newId\<close>
  and every other note stays as it is. If no note of the scope has the id \<open>oldId\<close>, the
  store is returned unchanged.
\<close>

theorem replaceIdentifier_preserves:
  assumes "s sc = Some ns"
  shows "\<exists>ns'. replaceIdentifier sc oldId newId s = Inr (s(sc \<mapsto> ns'))
    \<and> length ns' = length ns
    \<and> (\<forall>k<length ns.
          note_text (ns' ! k) = note_text (ns ! k)
          \<and> createdAt (ns' ! k) = createdAt (ns ! k)
          \<and> note_done (ns' ! k) = note_done (ns ! k)
          \<and> (note_id (ns ! k) = oldId \<longrightarrow> ns' ! k = (ns ! k)\<lparr>note_id := newId\<rparr>)
          \<and> (note_id (ns ! k) \<noteq> oldId \<longrightarrow> ns' ! k = ns ! k))
    \<and> ((\<forall>n\<in>set ns. note_id n \<noteq> oldId) \<longrightarrow> replaceIdentifier sc oldId newId s = Inr s)"
proof -
  let ?ns' = "map (\<lambda>n. if note_id n = oldId then n\<lparr>note_id := newId\<rparr> else n) ns"
  have run: "replaceIdentifier sc oldId newId s = Inr (s(sc \<mapsto> ?ns'))"
    using assms by (simp add: replaceIdentifier_def)
  have "(\<forall>n\<in>set ns. note_id n \<noteq> oldId) \<longrightarrow> replaceIdentifier sc oldId newId s = Inr s"
    using assms run by (auto simp: map_absent map_upd_same)
  moreover have "\<forall>k<length ns.
      note_text (?ns' ! k) = note_text (ns ! k)
      \<and> createdAt (?ns' ! k) = createdAt (ns ! k)
      \<and> note_done (?ns' ! k) = note_done (ns ! k)
      \<and> (note_id (ns ! k) = oldId \<longrightarrow> ?ns' ! k = (ns ! k)\<lparr>note_id := newId\<rparr>)
      \<and> (note_id (ns ! k) \<noteq> oldId \<longrightarrow> ?ns' ! k = ns ! k)"
    by simp
  moreover have "length ?ns' = length ns"
    by simp
  ultimately show ?thesis
    using run by blast
qed

theorem replaceIdentifier_preserves_witness:
  "store_ab Today = Some [note_a, note_b]
   \<and> replaceIdentifier Today (js ''b'') (js ''srv-9'') store_ab
       = Inr (store_ab(Today \<mapsto> [note_a, note_b\<lparr>note_id := js ''srv-9''\<rparr>]))
   \<and> note_id note_a \<noteq> js ''c'' \<and> note_id note_b \<noteq> js ''c''
   \<and> replaceIdentifier Today (js ''c'') (js ''srv-9'') store_ab = Inr store_ab"
proof -
  have h: "store_ab Today = Some [note_a, note_b]"
    by (simp add: store_ab_def)
  have absent: "\<forall>n\<in>set [note_a, note_b]. note_id n \<noteq> js ''c''"
    by (simp add: note_a_def note_b_def js_def cu_def)
  have ids: "note_id note_a \<noteq> js ''b''" "note_id note_b = js ''b''"
    by (simp_all add: note_a_def note_b_def js_def cu_def)
  from replaceIdentifier_preserves
    [where s = store_ab and sc = Today and oldId = "js ''b''" and newId = "js ''srv-9''", OF h]
  obtain ns' where r: "replaceIdentifier Today (js ''b'') (js ''srv-9'') store_ab
        = Inr (store_ab(Today \<mapsto> ns'))"
    and l: "length ns' = 2"
    and a: "ns' ! 0 = note_a" and b: "ns' ! 1 = note_b\<lparr>note_id := js ''srv-9''\<rparr>"
    using ids by fastforce
  from l a b have "ns' = [note_a, note_b\<lparr>note_id := js ''srv-9''\<rparr>]"
    by (cases ns'; cases "tl ns'") auto
  moreover have "replaceIdentifier Today (js ''c'') (js ''srv-9'') store_ab = Inr store_ab"
    using absent replaceIdentifier_preserves
      [where s = store_ab and sc = Today and oldId = "js ''c''" and newId = "js ''srv-9''", OF h]
    by blast
  ultimately show ?thesis
    using r h absent by simp
qed

section \<open>Adding a note\<close>


definition optimistic_note :: "env \<Rightarrow> jsstring \<Rightarrow> Note" where
  "optimistic_note e t =
     \<lparr>note_id = temp_id e, note_text = t, createdAt = Finite (now_created e), note_done = False\<rparr>"

lemma addNote_start_nonempty:
  assumes "store w (scope w) = Some ns" and "trim (input w) = t" and "t \<noteq> []"
  shows "addNote_start e w =
    Inr (w\<lparr>input := [], store := (store w)(scope w \<mapsto> optimistic_note e t # ns),
           effects := effects w @ [Post API_URL (scope w) (request_body (scope w) t)]\<rparr>,
         Some (scope w, temp_id e))"
  using assms
  by (simp add: addNote_start_def Let_def set_store_def insert_upd_def add_effect_def
      optimistic_note_def)

text \<open>
  C7. When the input trims to the empty string, \<open>addNote\<close> returns at once: the widget, and
  with it the store and the list of requests sent, is what it was, whatever the scope.
\<close>

theorem addNote_rejects_empty_text:
  assumes "trim (input w) = []"
  shows "addNote_start e w = Inr (w, None) \<and> addNote e outcome w = Inr w"
  using assms by (simp add: addNote_def addNote_start_def)

theorem addNote_rejects_empty_text_witness:
  "trim (input widget_ab) = []
   \<and> addNote env_5 NetworkFault widget_ab
       = Inr widget_ab"
proof -
  have h: "trim (input widget_ab) = []"
    by (simp add: widget_ab_def trim_def js_def cu_def is_white_space_def)
  from addNote_rejects_empty_text [OF h] h show ?thesis
    by blast
qed

lemma trim_buy_milk: "trim (js ''Buy milk'') = js ''Buy milk''"
  by (simp add: trim_def js_def cu_def is_white_space_def)

lemma temp_id_env_5: "temp_id env_5 = js ''tmp-5-abc''"
  by (simp add: temp_id_def env_5_def show_number_def Abs_safe_integer_inverse show_int_def
      show_nat.simps digit_char_def js_def cu_def)

text \<open>
  C2. From a store whose selected scope is empty, with an input that trims to a non-empty
  text, a response with a status in 200-299 and a non-empty id makes \<open>addNote\<close> settle
  with that scope holding exactly one note: the returned id, the trimmed text, not done.
\<close>

theorem addNote_confirms:
  assumes "store w (scope w) = Some []" and "trim (input w) = t" and "t \<noteq> []"
    and "response_ok status" and "newId \<noteq> []"
  shows "\<exists>w'. addNote e (Response status (Data (Some (Some newId)))) w = Inr w'
    \<and> store w' =
        (store w)(scope w \<mapsto>
          [\<lparr>note_id = newId, note_text = t, createdAt = Finite (now_created e), note_done = False\<rparr>])"
  using assms addNote_start_nonempty [OF assms(1-3), of e]
  by (simp add: addNote_def addNote_settle_def set_store_def replaceIdentifier_def
      optimistic_note_def)

theorem addNote_confirms_witness:
  "store widget_milk (scope widget_milk) = Some []
   \<and> trim (input widget_milk) = js ''Buy milk''
   \<and> js ''Buy milk'' \<noteq> []
   \<and> response_ok 200
   \<and> js ''srv-1'' \<noteq> []
   \<and> notes_after (addNote env_5 (Response 200 (Data (Some (Some (js ''srv-1''))))) widget_milk)
        Today
       = Some [\<lparr>note_id = js ''srv-1'', note_text = js ''Buy milk'', createdAt = at_ms 6,
                 note_done = False\<rparr>]"
proof -
  have h1: "store widget_milk (scope widget_milk) = Some []"
    by (simp add: widget_milk_def emptyStore_def)
  have h2: "trim (input widget_milk) = js ''Buy milk''"
    by (simp add: widget_milk_def trim_buy_milk)
  have h3: "js ''Buy milk'' \<noteq> []" and h5: "js ''srv-1'' \<noteq> []"
    by (simp_all add: js_def)
  have h4: "response_ok 200"
    by (simp add: response_ok_def)
  from addNote_confirms [OF h1 h2 h3 h4 h5, of env_5]
  have "notes_after (addNote env_5 (Response 200 (Data (Some (Some (js ''srv-1''))))) widget_milk)
      Today
    = Some [\<lparr>note_id = js ''srv-1'', note_text = js ''Buy milk'', createdAt = at_ms 6,
              note_done = False\<rparr>]"
    by (auto simp: notes_after_def widget_milk_def env_5_def at_ms_def)
  with h1 h2 h3 h4 h5 show ?thesis
    by simp
qed



text \<open>
  C1, as stated, fails when a note of the scope already carries the id that \<open>addNote\<close>
  generates: the rollback filters by id and removes that note as well.
\<close>

theorem addNote_rollback_counterexample:
  "trim (input widget_tmp) \<noteq> []
   \<and> failed NetworkFault
   \<and> store widget_tmp Today = Some [note_tmp]
   \<and> notes_after (addNote env_5 NetworkFault widget_tmp) Today = Some []"
proof -
  have t: "trim (input widget_tmp) = js ''Buy milk''"
    by (simp add: widget_tmp_def trim_buy_milk)
  have ne: "js ''Buy milk'' \<noteq> []"
    by (simp add: js_def)
  have s: "store widget_tmp (scope widget_tmp) = Some [note_tmp]"
    by (simp add: widget_tmp_def)
  have "notes_after (addNote env_5 NetworkFault widget_tmp) Today = Some []"
    using addNote_start_nonempty [OF s t ne, of env_5]
    by (simp add: addNote_def addNote_settle_def rollback_def set_store_def remove_upd_def
        add_effect_def notes_after_def optimistic_note_def temp_id_env_5 note_tmp_def)
      (simp add: widget_tmp_def)
  with t ne s show ?thesis
    by (simp add: failed_def widget_tmp_def)
qed

text \<open>
  C1, amended. In a store that has the selected scope, with an input that trims to a
  non-empty text and a temporary id that no note of the scope carries yet, a request that
  fails (network fault, status outside 200-299 or malformed body) makes \<open>addNote\<close> settle
  with the store it started from; the request was sent once, the error logged and one alert
  raised.
\<close>

theorem addNote_rolls_back:
  assumes "store w (scope w) = Some ns" and "trim (input w) = t" and "t \<noteq> []"
    and "failed outcome" and "\<forall>n\<in>set ns. note_id n \<noteq> temp_id e"
  shows "\<exists>w'. addNote e outcome w = Inr w'
    \<and> store w' = store w
    \<and> effects w' =
        effects w @ [Post API_URL (scope w) (request_body (scope w) t), ConsoleError,
                     Alert (js ''Could not save note. Please try again.'')]"
proof -
  let ?w1 = "w\<lparr>input := [], store := (store w)(scope w \<mapsto> optimistic_note e t # ns),
      effects := effects w @ [Post API_URL (scope w) (request_body (scope w) t)]\<rparr>"
  have start: "addNote_start e w = Inr (?w1, Some (scope w, temp_id e))"
    by (rule addNote_start_nonempty [OF assms(1-3)])
  have settle: "addNote_settle (scope w) (temp_id e) outcome ?w1 = rollback (scope w) (temp_id e) ?w1"
    using assms(4)
    by (auto simp: addNote_settle_def failed_def split: fetch_outcome.splits body.splits)
  have "filter (\<lambda>n. note_id n \<noteq> temp_id e) (optimistic_note e t # ns) = ns"
    using filter_absent [OF assms(5)] by (simp add: optimistic_note_def)
  then have "rollback (scope w) (temp_id e) ?w1 =
      Inr (w\<lparr>input := [], store := (store w)(scope w \<mapsto> ns),
             effects := effects w @ [Post API_URL (scope w) (request_body (scope w) t), ConsoleError,
               Alert (js ''Could not save note. Please try again.'')]\<rparr>)"
    by (simp add: rollback_def set_store_def remove_upd_def add_effect_def)
  with start settle assms(1) show ?thesis
    by (simp add: addNote_def map_upd_same)
qed

theorem addNote_rolls_back_witness:
  "store widget_ab_milk (scope widget_ab_milk) = Some [note_a, note_b]
   \<and> trim (input widget_ab_milk) = js ''Buy milk''
   \<and> js ''Buy milk'' \<noteq> []
   \<and> failed (Response 500 (Data None))
   \<and> note_id note_a \<noteq> temp_id env_5 \<and> note_id note_b \<noteq> temp_id env_5
   \<and> notes_after (addNote env_5 (Response 500 (Data None)) widget_ab_milk) Today
       = Some [note_a, note_b]
   \<and> effects_after (addNote env_5 (Response 500 (Data None)) widget_ab_milk)
       = [Post API_URL Today (request_body Today (js ''Buy milk'')), ConsoleError,
          Alert (js ''Could not save note. Please try again.'')]"
proof -
  have h1: "store widget_ab_milk (scope widget_ab_milk) = Some [note_a, note_b]"
    by (simp add: widget_ab_milk_def store_ab_def)
  have h2: "trim (input widget_ab_milk) = js ''Buy milk''"
    by (simp add: widget_ab_milk_def trim_buy_milk)
  have h3: "js ''Buy milk'' \<noteq> []"
    by (simp add: js_def)
  have h4: "failed (Response 500 (Data None))"
    by (simp add: failed_def response_ok_def)
  have fresh: "note_id note_a \<noteq> temp_id env_5" "note_id note_b \<noteq> temp_id env_5"
    by (simp_all add: temp_id_env_5 note_a_def note_b_def js_def)
  then have h5: "\<forall>n\<in>set [note_a, note_b]. note_id n \<noteq> temp_id env_5"
    by simp
  from addNote_rolls_back [OF h1 h2 h3 h4 h5]
  have "notes_after (addNote env_5 (Response 500 (Data None)) widget_ab_milk) Today
       = Some [note_a, note_b]
    \<and> effects_after (addNote env_5 (Response 500 (Data None)) widget_ab_milk)
       = [Post API_URL Today (request_body Today (js ''Buy milk'')), ConsoleError,
          Alert (js ''Could not save note. Please try again.'')]"
    by (auto simp: notes_after_def effects_after_def widget_ab_milk_def store_ab_def)
  with h1 h2 h3 h4 fresh show ?thesis
    by simp
qed


section \<open>Numbers and strings are read back as they were written\<close>

lemma unat_small: "n < 65536 \<Longrightarrow> unat (of_nat n :: jschar) = n"
  by (simp add: unat_of_nat)

lemma unat_digit_char: "d < 10 \<Longrightarrow> unat (digit_char d) = 48 + d"
  unfolding digit_char_def by (subst unat_of_nat) simp

lemma is_digit_unat: "is_digit c \<longleftrightarrow> 48 \<le> unat c \<and> unat c \<le> 57"
  by (simp add: is_digit_def word_le_nat_alt)

lemma jschar_eq_unat: "(c :: jschar) = d \<longleftrightarrow> unat c = unat d"
  by (simp add: word_unat_eq_iff)

lemma digit_char_props:
  assumes "d < 10"
  shows "is_digit (digit_char d)" and "digit_val (digit_char d) = d"
    and "digit_char d = 0x30 \<longleftrightarrow> d = 0" and "digit_char d \<noteq> 0x2D"
  using assms
  by (auto simp: is_digit_unat digit_val_def unat_digit_char jschar_eq_unat)

lemma show_nat_digits: "list_all is_digit (show_nat n)"
  by (induction n rule: show_nat.induct) (subst show_nat.simps, simp add: digit_char_props)

lemma show_nat_nonempty: "show_nat n \<noteq> []"
  by (subst show_nat.simps) simp

lemma digits_val_snoc: "digits_val (ds @ [c]) = 10 * digits_val ds + digit_val c"
  by (simp add: digits_val_def)

lemma digits_val_show_nat: "digits_val (show_nat n) = n"
proof (induction n rule: show_nat.induct)
  case (1 n)
  show ?case
  proof (cases "n < 10")
    case True
    then show ?thesis
      by (subst show_nat.simps) (simp add: digits_val_def digit_char_props)
  next
    case False
    with 1 show ?thesis
      by (subst show_nat.simps) (simp add: digits_val_snoc digit_char_props)
  qed
qed

lemma show_nat_hd: "0 < n \<Longrightarrow> hd (show_nat n) \<noteq> 0x30"
proof (induction n rule: show_nat.induct)
  case (1 n)
  show ?case
  proof (cases "n < 10")
    case True
    with 1(2) show ?thesis
      by (subst show_nat.simps) (simp add: digit_char_props)
  next
    case False
    then have "0 < n div 10" by simp
    with 1(1) False have "hd (show_nat (n div 10)) \<noteq> 0x30" by simp
    with False show ?thesis
      by (subst show_nat.simps) (simp add: show_nat_nonempty)
  qed
qed

lemma show_nat_no_leading_zero: "1 < length (show_nat n) \<Longrightarrow> hd (show_nat n) \<noteq> 0x30"
proof -
  assume "1 < length (show_nat n)"
  then have "0 < n"
    by (subst (asm) show_nat.simps) (auto split: if_splits)
  then show ?thesis by (rule show_nat_hd)
qed

lemma takeWhile_digits:
  "list_all is_digit ds \<Longrightarrow> number_end r \<Longrightarrow> takeWhile is_digit (ds @ r) = ds \<and> dropWhile is_digit (ds @ r) = r"
  by (induction ds) (auto simp: number_end_def split: list.splits)

lemma scan_nat:
  assumes "number_end r"
  shows "scan_number (show_nat n @ r) = Some (of_nat n, r)"
proof -
  obtain c cs where cs: "show_nat n = c # cs"
    using show_nat_nonempty by (cases "show_nat n") auto
  have "is_digit c"
    using show_nat_digits [of n] cs by simp
  then have c: "c \<noteq> 0x2D"
    by (auto simp: is_digit_def)
  have tw: "takeWhile is_digit (show_nat n @ r) = show_nat n" "dropWhile is_digit (show_nat n @ r) = r"
    using takeWhile_digits [OF show_nat_digits assms] by auto
  have f: "scan_fraction r = Some (0, r)" and e: "scan_exponent r = Some (0, r)"
    using assms by (auto simp: scan_fraction_def scan_exponent_def number_end_def split: list.splits)
  have lead: "\<not> (1 < length (show_nat n) \<and> hd (show_nat n) = 0x30)"
    using show_nat_no_leading_zero by blast
  have "hd (show_nat n @ r) \<noteq> 0x2D"
    using cs c by simp
  then show ?thesis
    using tw f e lead show_nat_nonempty [of n]
    by (simp add: scan_number_def Let_def digits_val_show_nat)
qed

lemma scan_int:
  assumes "number_end r"
  shows "scan_number (show_int i @ r) = Some (of_int i, r)"
proof (cases "i < 0")
  case False
  then show ?thesis
    using scan_nat [OF assms, of "nat i"] by (simp add: show_int_def)
next
  case True
  let ?n = "nat (- i)"
  have tw: "takeWhile is_digit (show_nat ?n @ r) = show_nat ?n" "dropWhile is_digit (show_nat ?n @ r) = r"
    using takeWhile_digits [OF show_nat_digits assms] by auto
  have f: "scan_fraction r = Some (0, r)" and e: "scan_exponent r = Some (0, r)"
    using assms by (auto simp: scan_fraction_def scan_exponent_def number_end_def split: list.splits)
  have lead: "\<not> (1 < length (show_nat ?n) \<and> hd (show_nat ?n) = 0x30)"
    using show_nat_no_leading_zero by blast
  have "(of_nat ?n :: rat) = - of_int i"
    using True by (simp add: of_nat_nat)
  then show ?thesis
    using True tw f e lead show_nat_nonempty [of ?n]
    by (simp add: show_int_def scan_number_def Let_def digits_val_show_nat)
qed


lemma unat_plus_small: "k + d < 65536 \<Longrightarrow> unat (word_of_nat (k + d) :: jschar) = k + d"
  by (subst unat_of_nat) simp

lemma unat_hex_char: "d < 16 \<Longrightarrow> unat (hex_char d) = (if d < 10 then 48 + d else 87 + d)"
  using unat_plus_small [of 48 d] unat_plus_small [of 87 d]
  by (simp add: hex_char_def del: of_nat_add)

lemma hex_val_hex_char: "d < 16 \<Longrightarrow> hex_val (hex_char d) = Some d"
  by (auto simp: hex_val_def word_le_nat_alt unat_hex_char)

lemma hex4_val_escape:
  "hex4_val (hex_char (unat c div 4096)) (hex_char (unat c div 256 mod 16))
     (hex_char (unat c div 16 mod 16)) (hex_char (unat c mod 16)) = Some c"
proof -
  have lt: "unat c < 65536"
    using unsigned_less [of c, where ?'a = nat] by simp
  then have d: "unat c div 4096 < 16"
    by simp
  define n where "n = unat c"
  have a: "n div 256 = n div 16 div 16" and b: "n div 4096 = n div 16 div 16 div 16"
    by (simp_all add: div_mult2_eq [symmetric])
  have "((n div 4096 * 16 + n div 256 mod 16) * 16 + n div 16 mod 16) * 16 + n mod 16 = n"
    unfolding a b by (simp only: div_mult_mod_eq)
  then have "((unat c div 4096 * 16 + unat c div 256 mod 16) * 16 + unat c div 16 mod 16) * 16
      + unat c mod 16 = unat c"
    by (simp only: n_def)
  then show ?thesis
    using d by (simp add: hex4_val_def hex_val_hex_char)
qed

lemma scan_string_raw:
  "c \<noteq> 0x22 \<Longrightarrow> c \<noteq> 0x5C \<Longrightarrow> \<not> c < 0x20 \<Longrightarrow>
   scan_string (c # t) = map_option (\<lambda>(s, r). (c # s, r)) (scan_string t)"
  by simp

lemma scan_string_unicode_escape:
  "scan_string (unicode_escape c @ t) = map_option (\<lambda>(s, r). (c # s, r)) (scan_string t)"
  by (simp add: unicode_escape_def Let_def hex4_val_escape)

lemma scan_string_quote_unit:
  "scan_string (quote_unit c @ t) = map_option (\<lambda>(s, r). (c # s, r)) (scan_string t)"
  by (simp add: quote_unit_def scan_string_unicode_escape unescape_def)

lemma surrogate_raw:
  assumes "is_high_surrogate c \<or> is_low_surrogate c"
  shows "c \<noteq> 0x22" and "c \<noteq> 0x5C" and "\<not> c < 0x20"
  using assms
  by (auto simp: is_high_surrogate_def is_low_surrogate_def word_le_nat_alt word_less_nat_alt)

lemma scan_string_quote_chars:
  "scan_string (quote_chars s @ 0x22 # r) = Some (s, r)"
proof (induction s rule: quote_chars.induct)
  case 1
  show ?case by simp
next
  case (2 c)
  show ?case
    by (simp only: quote_chars.simps scan_string_quote_unit) simp
next
  case (3 c d cs)
  show ?case
  proof (cases "is_high_surrogate c \<and> is_low_surrogate d")
    case True
    with 3(1) show ?thesis
      by (simp add: surrogate_raw del: scan_string.simps add: scan_string_raw)
  next
    case False
    with 3(2) show ?thesis
      by (simp only: quote_chars.simps if_False append_assoc scan_string_quote_unit) simp
  qed
qed


section \<open>A written store is parsed to the value it is\<close>

lemma prepend_prepend: "prepend ts (prepend us x) = prepend (ts @ us) x"
  by (cases x) (simp_all add: prepend_def)

lemma map_option_cons: "map_option ((#) t) x = prepend [t] x"
  by (cases x) (simp_all add: prepend_def)

lemma prepend_Some: "prepend ts (Some us) = Some (ts @ us)"
  by (simp add: prepend_def)

lemma prepend_Nil: "prepend [] x = x"
  by (cases x) (simp_all add: prepend_def)

lemma scan_punct:
  "scan_tokens (0x7B # r) = prepend [TLBrace] (scan_tokens r)"
  "scan_tokens (0x7D # r) = prepend [TRBrace] (scan_tokens r)"
  "scan_tokens (0x5B # r) = prepend [TLBrack] (scan_tokens r)"
  "scan_tokens (0x5D # r) = prepend [TRBrack] (scan_tokens r)"
  "scan_tokens (0x3A # r) = prepend [TColon] (scan_tokens r)"
  "scan_tokens (0x2C # r) = prepend [TComma] (scan_tokens r)"
  by (simp_all add: scan_tokens.simps is_json_space_def map_option_cons)

lemma scan_quote: "scan_tokens (quote s @ r) = prepend [TStr s] (scan_tokens r)"
  by (simp add: quote_def scan_tokens.simps is_json_space_def scan_string_quote_chars
      map_option_cons)

lemma scan_bool:
  "scan_tokens ((if b then js ''true'' else js ''false'') @ r)
    = prepend [TBool b] (scan_tokens r)"
  by (simp add: js_def cu_def scan_tokens.simps is_json_space_def map_option_cons)

lemma show_int_first: "\<exists>c cs. show_int i = c # cs \<and> (c = 0x2D \<or> is_digit c)"
proof (cases "i < 0")
  case True
  then show ?thesis by (simp add: show_int_def)
next
  case False
  obtain c cs where cs: "show_nat (nat i) = c # cs"
    using show_nat_nonempty by (cases "show_nat (nat i)") auto
  then have "is_digit c"
    using show_nat_digits [of "nat i"] by simp
  with cs False show ?thesis by (simp add: show_int_def)
qed

lemma scan_number_start:
  assumes "c = 0x2D \<or> is_digit c"
  shows "scan_tokens (c # cs) =
    (case scan_number (c # cs) of
       None \<Rightarrow> None
     | Some (x, r) \<Rightarrow> map_option ((#) (TNum x)) (scan_tokens r))"
proof -
  have u: "unat c = 45 \<or> (48 \<le> unat c \<and> unat c \<le> 57)"
    using assms by (auto simp: is_digit_unat)
  have ne: "c \<noteq> 0x20" "c \<noteq> 0x9" "c \<noteq> 0xA" "c \<noteq> 0xD" "c \<noteq> 0x7B" "c \<noteq> 0x7D" "c \<noteq> 0x5B"
    "c \<noteq> 0x5D" "c \<noteq> 0x3A" "c \<noteq> 0x2C" "c \<noteq> 0x22" "c \<noteq> 0x6E" "c \<noteq> 0x74" "c \<noteq> 0x66"
    using u by (auto simp: jschar_eq_unat)
  show ?thesis
    by (subst scan_tokens.simps) (simp add: ne is_json_space_def js_def cu_def)
qed

lemma scan_show_int:
  assumes "number_end r"
  shows "scan_tokens (show_int i @ r) = prepend [TNum (of_int i)] (scan_tokens r)"
proof -
  obtain c cs where cs: "show_int i = c # cs" and c: "c = 0x2D \<or> is_digit c"
    using show_int_first by blast
  have "scan_tokens (c # cs @ r) = map_option ((#) (TNum (of_int i))) (scan_tokens r)"
    using scan_int [OF assms, of i] cs by (simp add: scan_number_start [OF c])
  then show ?thesis
    by (simp add: cs map_option_cons)
qed

lemma scan_member:
  assumes "\<And>r. scan_tokens (v @ r) = prepend ts (scan_tokens r)"
  shows "scan_tokens (stringify_member k v @ r) = prepend (member_tokens k ts) (scan_tokens r)"
  by (simp add: stringify_member_def member_tokens_def scan_quote scan_punct assms
      prepend_prepend)

lemma scan_null: "scan_tokens (js ''null'' @ r) = prepend [TNull] (scan_tokens r)"
  by (simp add: js_def cu_def scan_tokens.simps is_json_space_def map_option_cons)

lemma scan_member_number:
  "scan_tokens (stringify_member k (stringify_number x) @ 0x2C # r)
    = prepend (member_tokens k [number_token x] @ [TComma]) (scan_tokens r)"
proof (cases x)
  case (Finite i)
  have "number_end (0x2C # r)"
    by (simp add: number_end_def is_digit_def)
  then show ?thesis
    by (simp add: Finite stringify_number_def show_number_def number_token_def
        stringify_member_def member_tokens_def scan_quote scan_punct scan_show_int
        prepend_prepend)
next
  case (NonFinite y)
  then show ?thesis
    by (simp add: stringify_number_def number_token_def stringify_member_def member_tokens_def
        scan_quote scan_punct scan_null prepend_prepend)
qed

lemma scan_join:
  assumes "\<And>x r. x \<in> set xs \<Longrightarrow> scan_tokens (f x @ r) = prepend (g x) (scan_tokens r)"
  shows "scan_tokens (join_with 0x2C (map f xs) @ r)
    = prepend (join_with TComma (map g xs)) (scan_tokens r)"
  using assms
proof (induction xs rule: induct_list012)
  case 1
  show ?case by (simp add: prepend_Nil)
next
  case (2 x)
  then show ?case by simp
next
  case (3 x y zs)
  then show ?case
    by (simp add: scan_punct prepend_prepend)
qed

lemma scan_note: "scan_tokens (stringify_note n @ r) = prepend (note_tokens n) (scan_tokens r)"
  by (simp add: stringify_note_def note_tokens_def scan_punct scan_member scan_quote scan_bool
      scan_member_number prepend_prepend)

lemma scan_notes: "scan_tokens (stringify_notes ns @ r) = prepend (notes_tokens ns) (scan_tokens r)"
  by (simp add: stringify_notes_def notes_tokens_def scan_punct scan_join scan_note
      prepend_prepend)

lemma scan_store: "scan_tokens (stringify_store s) = Some (store_tokens s)"
proof -
  have m: "scan_tokens ((case x of (sc, ns) \<Rightarrow> stringify_member (scope_name sc) (stringify_notes ns)) @ r)
      = prepend (case x of (sc, ns) \<Rightarrow> member_tokens (scope_name sc) (notes_tokens ns))
          (scan_tokens r)" for x r
    by (cases x) (simp add: scan_member scan_notes)
  have "scan_tokens (stringify_store s @ []) = prepend (store_tokens s) (scan_tokens [])"
    unfolding stringify_store_def store_tokens_def
    by (simp add: scan_punct scan_join [where f = "\<lambda>(sc, ns). stringify_member (scope_name sc) (stringify_notes ns)", OF m]
        prepend_prepend del: append_Nil2)
  then show ?thesis by (simp add: prepend_Some scan_tokens.simps(1))
qed


lemma run_append:
  "run c (ts @ us) = (case run c ts of None \<Rightarrow> None | Some c' \<Rightarrow> run c' us)"
  by (induction ts arbitrary: c) (auto split: option.splits)

lemma run_done [simp]: "(case x of None \<Rightarrow> None | Some c' \<Rightarrow> run c' []) = x"
  by (cases x) simp_all

lemma step_first_elem: "t \<noteq> TRBrack \<Longrightarrow> step (MFirstElem, st) t = open_value t st"
  by (cases "(((MFirstElem, st), t))" rule: step.cases) auto

lemma step_value: "value_mode m \<Longrightarrow> t \<noteq> TRBrack \<Longrightarrow> step (m, st) t = open_value t st"
  by (auto simp: value_mode_def step_first_elem)

lemma step_key:
  "key_mode m \<Longrightarrow> step (m, FObj kvs k # st) (TStr k') = Some (MColon, FObj kvs (Some k') # st)"
  by (auto simp: key_mode_def)

lemma run_member:
  assumes "key_mode m"
    and "\<And>st'. run (MValue, st') ts = deliver v st'"
  shows "run (m, FObj kvs k # st) (member_tokens k' ts) = Some (MNext, FObj (put kvs k' v) None # st)"
  using assms by (simp add: member_tokens_def step_key)

lemma js_keys_distinct:
  "js ''id'' \<noteq> js ''text''" "js ''id'' \<noteq> js ''createdAt''" "js ''id'' \<noteq> js ''done''"
  "js ''text'' \<noteq> js ''createdAt''" "js ''text'' \<noteq> js ''done''" "js ''createdAt'' \<noteq> js ''done''"
  by (simp_all add: js_def cu_def)

lemma run_scalar:
  "run (MValue, st) [TStr s] = deliver (JStr s) st"
  "run (MValue, st) [TNum x] = deliver (JNum x) st"
  "run (MValue, st) [TBool b] = deliver (JBool b) st"
  "run (MValue, st) [number_token y] = deliver (written_number y) st"
  by (simp_all add: number_token_def written_number_def split: number.splits)

lemma run_note:
  assumes "value_mode m"
  shows "run (m, st) (note_tokens n) = deliver (written_note n) st"
proof -
  have "run (m, st) (note_tokens n) = run (MFirstKey, FObj [] None # st) (tl (note_tokens n))"
    using assms by (simp add: note_tokens_def step_value)
  also have "\<dots> = deliver (written_note n) st"
    using js_keys_distinct
    by (simp add: note_tokens_def run_append run_member key_mode_def run_scalar written_note_def
        del: run.simps(2) add: run.simps(2) [of _ TComma] run.simps(2) [of _ TRBrace])
  finally show ?thesis .
qed

lemma run_elements:
  assumes "value_mode m"
  shows "run (m, FArr acc # st) (join_with TComma (map note_tokens (n # ns)) @ [TRBrack])
    = deliver (JArr (acc @ map written_note (n # ns))) st"
  using assms
proof (induction ns arbitrary: n acc m)
  case Nil
  then show ?case
    by (simp add: run_append run_note)
next
  case (Cons n' ns)
  have "run (MValue, FArr (acc @ [written_note n]) # st)
      (join_with TComma (map note_tokens (n' # ns)) @ [TRBrack])
    = deliver (JArr ((acc @ [written_note n]) @ map written_note (n' # ns))) st"
    by (rule Cons.IH) (simp add: value_mode_def)
  with Cons.prems show ?case
    by (simp add: run_append run_note)
qed

lemma run_notes:
  assumes "value_mode m"
  shows "run (m, st) (notes_tokens ns) = deliver (JArr (map written_note ns)) st"
proof (cases ns)
  case Nil
  with assms show ?thesis
    by (simp add: notes_tokens_def step_value)
next
  case (Cons n ns')
  have "run (MFirstElem, FArr [] # st) (join_with TComma (map note_tokens (n # ns')) @ [TRBrack])
    = deliver (JArr ([] @ map written_note (n # ns'))) st"
    by (rule run_elements) (simp add: value_mode_def)
  with assms Cons show ?thesis
    by (simp add: notes_tokens_def step_value)
qed

lemma store_member_pair: "store_member (sc, ns) = (scope_name sc, JArr (map written_note ns))"
  by (simp add: store_member_def)

lemma run_members:
  assumes "key_mode m"
  shows "run (m, FObj kvs None # st)
      (join_with TComma
         (map (\<lambda>(sc, ns). member_tokens (scope_name sc) (notes_tokens ns)) (p # ps)) @ [TRBrace])
    = deliver (JObj (foldl (\<lambda>acc (k, x). put acc k x) kvs (map store_member (p # ps)))) st"
  using assms
proof (induction ps arbitrary: p kvs m)
  case Nil
  then show ?case
    by (cases p) (simp add: run_append run_member run_notes value_mode_def store_member_pair)
next
  case (Cons p' ps)
  obtain sc ns where p: "p = (sc, ns)" by (cases p)
  have "run (MKey, FObj (put kvs (scope_name sc) (JArr (map written_note ns))) None # st)
      (join_with TComma
         (map (\<lambda>(sc, ns). member_tokens (scope_name sc) (notes_tokens ns)) (p' # ps)) @ [TRBrace])
    = deliver (JObj (foldl (\<lambda>acc (k, x). put acc k x)
        (put kvs (scope_name sc) (JArr (map written_note ns))) (map store_member (p' # ps)))) st"
    by (rule Cons.IH) (simp add: key_mode_def)
  with Cons.prems p show ?case
    by (simp add: run_append run_member run_notes value_mode_def store_member_pair)
qed

lemma run_store:
  "run (MValue, []) (store_tokens s)
    = Some (MDone (JObj (foldl (\<lambda>acc (k, x). put acc k x) [] (map store_member (present_scopes s)))), [])"
proof (cases "present_scopes s")
  case Nil
  then show ?thesis by (simp add: store_tokens_def)
next
  case (Cons p ps)
  have "run (MFirstKey, FObj [] None # [])
      (join_with TComma
         (map (\<lambda>(sc, ns). member_tokens (scope_name sc) (notes_tokens ns)) (p # ps)) @ [TRBrace])
    = deliver (JObj (foldl (\<lambda>acc (k, x). put acc k x) [] (map store_member (p # ps)))) []"
    by (rule run_members) (simp add: key_mode_def)
  with Cons show ?thesis
    by (simp add: store_tokens_def)
qed


lemma scope_name_eq: "scope_name a = scope_name b \<longleftrightarrow> a = b"
  by (cases a; cases b) (simp_all add: js_def cu_def)

lemma put_fresh: "k \<notin> fst ` set kvs \<Longrightarrow> put kvs k v = kvs @ [(k, v)]"
  by (induction kvs) auto

lemma foldl_put_fresh:
  "distinct (map fst ps) \<Longrightarrow> fst ` set kvs \<inter> fst ` set ps = {} \<Longrightarrow>
   foldl (\<lambda>acc (k, x). put acc k x) kvs ps = kvs @ ps"
proof (induction ps arbitrary: kvs)
  case Nil
  then show ?case by simp
next
  case (Cons p ps)
  obtain k v where p: "p = (k, v)" by (cases p)
  from Cons.prems p have fresh: "k \<notin> fst ` set kvs"
    by auto
  have "foldl (\<lambda>acc (k, x). put acc k x) (kvs @ [(k, v)]) ps = (kvs @ [(k, v)]) @ ps"
    using Cons.prems p by (intro Cons.IH) auto
  with fresh p show ?case
    by (simp add: put_fresh)
qed

lemma map_fst_present_scopes: "map fst (present_scopes s) = filter (\<lambda>sc. s sc \<noteq> None) SCOPES"
  by (auto simp: present_scopes_def List.map_filter_def SCOPES_def)

lemma store_member_keys: "map fst (map store_member ps) = map scope_name (map fst ps)"
  by (simp add: store_member_def)

lemma distinct_store_members: "distinct (map fst (map store_member (present_scopes s)))"
proof -
  have "distinct (filter (\<lambda>sc. s sc \<noteq> None) SCOPES)"
    by (simp add: SCOPES_def)
  then have "distinct (map scope_name (filter (\<lambda>sc. s sc \<noteq> None) SCOPES))"
    by (simp add: distinct_map inj_on_def scope_name_eq)
  then show ?thesis
    by (simp only: store_member_keys map_fst_present_scopes)
qed

lemma JSON_parse_stringify_store: "JSON_parse (stringify_store s) = Some (written_store s)"
proof -
  have "foldl (\<lambda>acc (k, x). put acc k x) [] (map store_member (present_scopes s))
      = [] @ map store_member (present_scopes s)"
    by (rule foldl_put_fresh [OF distinct_store_members]) simp
  then show ?thesis
    by (simp add: JSON_parse_def scan_store run_store written_store_def)
qed


lemma map_of_put: "map_of (put kvs k v) k = Some v"
  by (induction kvs) auto

lemma present_scopes_total:
  "present_scopes (\<lambda>sc. Some (f sc)) = map (\<lambda>sc. (sc, f sc)) SCOPES"
  by (simp add: present_scopes_def List.map_filter_def o_def)

lemma emptyStore_total: "emptyStore = (\<lambda>sc. Some [])"
proof (rule ext)
  fix sc
  show "emptyStore sc = Some []"
    by (cases sc) (simp_all add: emptyStore_def)
qed

lemma js_of_store_empty: "js_of_store emptyStore = written_store emptyStore"
  by (simp add: emptyStore_total present_scopes_total js_of_store_def written_store_def
      store_member_def)

lemma spread_empty_store:
  "spread [] (js_of_store emptyStore) = map store_member (present_scopes emptyStore)"
proof -
  have "foldl (\<lambda>acc (k, x). put acc k x) [] (map store_member (present_scopes emptyStore))
      = [] @ map store_member (present_scopes emptyStore)"
    by (rule foldl_put_fresh [OF distinct_store_members]) simp
  then show ?thesis
    by (simp add: spread_def own_props_def js_of_store_empty written_store_def)
qed



lemma written_note_finite: "is_finite (createdAt n) \<Longrightarrow> written_note n = js_of_note n"
  by (simp add: written_note_def js_of_note_def written_number_def js_of_number_def is_finite_def
      split: number.splits)

lemma present_scopes_member: "(sc, ns) \<in> set (present_scopes s) \<Longrightarrow> s sc = Some ns"
  by (auto simp: present_scopes_def List.map_filter_def)

lemma finite_timestamps_iff:
  "finite_timestamps s \<longleftrightarrow> (\<forall>sc ns. s sc = Some ns \<longrightarrow> list_all (\<lambda>n. is_finite (createdAt n)) ns)"
proof
  assume f: "finite_timestamps s"
  show "\<forall>sc ns. s sc = Some ns \<longrightarrow> list_all (\<lambda>n. is_finite (createdAt n)) ns"
  proof (intro allI impI)
    fix sc ns
    assume "s sc = Some ns"
    with f show "list_all (\<lambda>n. is_finite (createdAt n)) ns"
      by (cases sc) (simp_all add: finite_timestamps_def SCOPES_def)
  qed
next
  assume "\<forall>sc ns. s sc = Some ns \<longrightarrow> list_all (\<lambda>n. is_finite (createdAt n)) ns"
  then show "finite_timestamps s"
    by (simp add: finite_timestamps_def SCOPES_def split: option.splits)
qed

lemma written_store_finite:
  assumes "finite_timestamps s"
  shows "written_store s = js_of_store s"
proof -
  have "store_member p = (case p of (sc, ns) \<Rightarrow> (scope_name sc, JArr (map js_of_note ns)))"
    if "p \<in> set (present_scopes s)" for p
  proof -
    obtain sc ns where p: "p = (sc, ns)" by (cases p)
    with that have "s sc = Some ns"
      by (simp add: present_scopes_member)
    with assms have "list_all (\<lambda>n. is_finite (createdAt n)) ns"
      by (simp add: finite_timestamps_iff)
    then have "map written_note ns = map js_of_note ns"
      by (auto simp: list_all_iff written_note_finite)
    with p show ?thesis
      by (simp add: store_member_def)
  qed
  then show ?thesis
    by (simp add: written_store_def js_of_store_def)
qed




section \<open>What \<open>loadStore\<close> returns\<close>

lemma keys_put: "fst ` set (put kvs k v) = insert k (fst ` set kvs)"
proof (induction kvs)
  case Nil
  show ?case by simp
next
  case (Cons p kvs)
  obtain k' v' where p: "p = (k', v')" by (cases p)
  show ?case
  proof (cases "k' = k")
    case True
    with p show ?thesis by simp
  next
    case False
    with p Cons.IH show ?thesis by (simp add: insert_commute)
  qed
qed

lemma distinct_put: "distinct (map fst kvs) \<Longrightarrow> distinct (map fst (put kvs k v))"
proof (induction kvs)
  case Nil
  then show ?case by simp
next
  case (Cons p kvs)
  then show ?case
    by (cases p) (auto simp: keys_put)
qed

lemma deliver_ok:
  "distinct_keys v \<Longrightarrow> list_all frame_ok st \<Longrightarrow> deliver v st = Some c \<Longrightarrow> config_ok c"
  by (cases "(v, st)" rule: deliver.cases) (auto simp: config_ok_def distinct_put)

lemma open_value_ok:
  "list_all frame_ok st \<Longrightarrow> open_value t st = Some c \<Longrightarrow> config_ok c"
  by (cases "(t, st)" rule: open_value.cases)
    (auto simp: config_ok_def distinct_keys_def dest: deliver_ok [rotated 2])

lemma step_ok:
  assumes "config_ok c" and "step c t = Some c'"
  shows "config_ok c'"
proof -
  obtain m st where c: "c = (m, st)" by (cases c)
  from assms(1) c have st: "list_all frame_ok st"
    by (simp add: config_ok_def)
  from assms(2) st show ?thesis
    unfolding c
    by (cases "((m, st), t)" rule: step.cases)
      (auto simp: distinct_keys_def config_ok_def [of "(MColon, x)" for x]
        config_ok_def [of "(MValue, x)" for x] config_ok_def [of "(MKey, x)" for x]
        config_ok_def [of "(MFirstKey, x)" for x] config_ok_def [of "(MFirstElem, x)" for x]
        dest: deliver_ok [rotated 2] open_value_ok [rotated 1])
qed

lemma run_ok: "config_ok c \<Longrightarrow> run c ts = Some c' \<Longrightarrow> config_ok c'"
proof (induction ts arbitrary: c)
  case Nil
  then show ?case by simp
next
  case (Cons t ts)
  then show ?case
    by (auto split: option.splits dest: step_ok)
qed

lemma JSON_parse_distinct_keys: "JSON_parse raw = Some v \<Longrightarrow> distinct_keys v"
proof -
  assume p: "JSON_parse raw = Some v"
  then obtain ts where ts: "scan_tokens raw = Some ts" and r: "run (MValue, []) ts = Some (MDone v, [])"
    by (auto simp: JSON_parse_def split: option.splits mode.splits list.splits)
  have "config_ok (MValue, [])"
    by (simp add: config_ok_def)
  from run_ok [OF this r] show ?thesis
    by (simp add: config_ok_def)
qed


lemma show_nat_inj: "show_nat a = show_nat b \<Longrightarrow> a = b"
  by (metis digits_val_show_nat)

lemma distinct_index_keys: "distinct (map show_nat [0..<n])"
  by (simp add: distinct_map inj_on_def) (blast dest: show_nat_inj)

lemma distinct_own_props: "distinct_keys v \<Longrightarrow> distinct (map fst (own_props v))"
  by (cases v) (simp_all add: distinct_keys_def own_props_def distinct_index_keys)

lemma map_of_put_other: "k' \<noteq> k \<Longrightarrow> map_of (put kvs k v) k' = map_of kvs k'"
  by (induction kvs) auto

lemma map_of_foldl_put:
  "distinct (map fst ps) \<Longrightarrow>
   map_of (foldl (\<lambda>acc (k, x). put acc k x) kvs ps) k
     = (case map_of ps k of None \<Rightarrow> map_of kvs k | Some x \<Rightarrow> Some x)"
proof (induction ps arbitrary: kvs)
  case Nil
  show ?case by simp
next
  case (Cons p ps)
  obtain k' v where p: "p = (k', v)" by (cases p)
  from Cons.prems p have d: "distinct (map fst ps)" and fresh: "k' \<notin> fst ` set ps"
    by auto
  from fresh have none: "map_of ps k' = None"
    by (simp add: map_of_eq_None_iff)
  show ?case
  proof (cases "k = k'")
    case True
    with p none Cons.IH [OF d, of "put kvs k' v"] show ?thesis
      by (simp add: map_of_put)
  next
    case False
    with p show ?thesis
      by (simp add: Cons.IH [OF d] map_of_put_other split: option.splits)
  qed
qed

lemma scope_name_not_digits: "\<not> list_all is_digit (scope_name sc)"
  by (cases sc) (simp_all add: js_def cu_def is_digit_def)

lemma scope_name_not_index: "scope_name sc \<notin> set (map show_nat ks)"
proof
  assume "scope_name sc \<in> set (map show_nat ks)"
  then obtain k where "scope_name sc = show_nat k"
    by auto
  with show_nat_digits [of k] scope_name_not_digits [of sc] show False
    by simp
qed

lemma map_of_index_keys:
  "length vs = length ks \<Longrightarrow> map_of (zip (map show_nat ks) vs) (scope_name sc) = None"
  using scope_name_not_index [of sc ks] by (auto simp: map_of_eq_None_iff dest: set_zip_leftD)

lemma own_props_scope: "map_of (own_props v) (scope_name sc) = get_prop v (scope_name sc)"
  by (cases v) (simp_all add: own_props_def get_prop_def map_of_index_keys del: scope_name.simps)

lemma get_prop_js_of_store:
  "get_prop (js_of_store s) (scope_name sc) = map_option (\<lambda>ns. JArr (map js_of_note ns)) (s sc)"
proof -
  obtain a b c d e where s: "s Today = a" "s Week = b" "s Month = c" "s Semester = d" "s Year = e"
    by blast
  show ?thesis
    by (cases a; cases b; cases c; cases d; cases e; cases sc)
      (simp_all add: get_prop_def js_of_store_def present_scopes_def List.map_filter_def SCOPES_def
        s scope_name_eq del: scope_name.simps)
qed

lemma get_prop_empty_store: "get_prop (js_of_store emptyStore) (scope_name sc) = Some (JArr [])"
  by (simp add: get_prop_js_of_store emptyStore_total del: scope_name.simps)

lemma loadStore_cases:
  "loadStore st =
     (case getItem st LS_KEY of
        Inl e \<Rightarrow> js_of_store emptyStore
      | Inr None \<Rightarrow> js_of_store emptyStore
      | Inr (Some raw) \<Rightarrow>
          (case JSON_parse raw of
             None \<Rightarrow> js_of_store emptyStore
           | Some parsed \<Rightarrow> JObj (spread (own_props (js_of_store emptyStore)) parsed)))"
proof -
  have "JSON_parse [] = None"
    by (simp add: JSON_parse_def scan_tokens.simps(1))
  moreover have "own_props (js_of_store emptyStore) = map store_member (present_scopes emptyStore)"
    by (simp add: own_props_def js_of_store_empty written_store_def)
  then have "spread [] (js_of_store emptyStore) = own_props (js_of_store emptyStore)"
    by (simp only: spread_empty_store)
  ultimately show ?thesis
    by (auto simp: loadStore_def Let_def split: sum.splits option.splits)
qed

lemma get_prop_loadStore_parsed:
  assumes "getItem st LS_KEY = Inr (Some raw)" and "JSON_parse raw = Some parsed"
  shows "get_prop (loadStore st) (scope_name sc)
    = (case get_prop parsed (scope_name sc) of None \<Rightarrow> Some (JArr []) | Some v \<Rightarrow> Some v)"
proof -
  have d: "distinct (map fst (own_props parsed))"
    by (rule distinct_own_props [OF JSON_parse_distinct_keys [OF assms(2)]])
  have e: "map_of (own_props (js_of_store emptyStore)) (scope_name sc) = Some (JArr [])"
    using get_prop_empty_store [of sc] by (simp add: own_props_scope)
  have "get_prop (loadStore st) (scope_name sc)
      = map_of (spread (own_props (js_of_store emptyStore)) parsed) (scope_name sc)"
    using assms by (simp add: loadStore_cases get_prop_def)
  also have "\<dots> = (case map_of (own_props parsed) (scope_name sc) of
      None \<Rightarrow> map_of (own_props (js_of_store emptyStore)) (scope_name sc) | Some v \<Rightarrow> Some v)"
    unfolding spread_def by (rule map_of_foldl_put [OF d])
  finally show ?thesis
    by (simp only: own_props_scope get_prop_empty_store)
qed

lemma get_prop_loadStore_present: "\<exists>v. get_prop (loadStore st) (scope_name sc) = Some v"
proof (cases "getItem st LS_KEY")
  case (Inl e)
  then show ?thesis
    by (simp add: loadStore_cases get_prop_empty_store del: scope_name.simps)
next
  case (Inr x)
  show ?thesis
  proof (cases x)
    case None
    with Inr show ?thesis
      by (simp add: loadStore_cases get_prop_empty_store del: scope_name.simps)
  next
    case (Some raw)
    show ?thesis
    proof (cases "JSON_parse raw")
      case None
      with Inr Some show ?thesis
        by (simp add: loadStore_cases get_prop_empty_store del: scope_name.simps)
    next
      case (Some parsed)
      with Inr \<open>x = Some raw\<close> get_prop_loadStore_parsed [of st raw parsed sc] show ?thesis
        by (auto split: option.splits)
    qed
  qed
qed




section \<open>The five scopes stay present\<close>

lemma all_scopes_present_iff: "all_scopes_present s \<longleftrightarrow> (\<forall>sc. s sc \<noteq> None)"
proof
  assume a: "all_scopes_present s"
  show "\<forall>sc. s sc \<noteq> None"
  proof
    fix sc
    from a show "s sc \<noteq> None"
      by (cases sc) (simp_all add: all_scopes_present_def SCOPES_def)
  qed
next
  assume "\<forall>sc. s sc \<noteq> None"
  then show "all_scopes_present s"
    by (simp add: all_scopes_present_def SCOPES_def)
qed

lemma updaters_keep_scopes:
  assumes "all_scopes_present s"
  shows "\<exists>s'. insert_upd sc n s = Inr s' \<and> all_scopes_present s'"
    and "\<exists>s'. replaceIdentifier sc a b s = Inr s' \<and> all_scopes_present s'"
    and "\<exists>s'. remove_upd sc i s = Inr s' \<and> all_scopes_present s'"
    and "\<exists>s'. toggle_upd sc i s = Inr s' \<and> all_scopes_present s'"
    and "all_scopes_present (clear_upd sc s)"
proof -
  from assms obtain ns where ns: "s sc = Some ns"
    by (auto simp: all_scopes_present_iff)
  from assms have up: "all_scopes_present (s(sc \<mapsto> x))" for x
    by (simp add: all_scopes_present_iff)
  show "\<exists>s'. insert_upd sc n s = Inr s' \<and> all_scopes_present s'"
    and "\<exists>s'. replaceIdentifier sc a b s = Inr s' \<and> all_scopes_present s'"
    and "\<exists>s'. remove_upd sc i s = Inr s' \<and> all_scopes_present s'"
    and "\<exists>s'. toggle_upd sc i s = Inr s' \<and> all_scopes_present s'"
    and "all_scopes_present (clear_upd sc s)"
    by (simp_all add: ns up insert_upd_def replaceIdentifier_def remove_upd_def toggle_upd_def
        clear_upd_def)
qed

lemma set_store_keeps_scopes:
  assumes "\<exists>s'. f (store w) = Inr s' \<and> all_scopes_present s'"
  shows "\<exists>w'. set_store f w = Inr w' \<and> all_scopes_present (store w')"
  using assms by (auto simp: set_store_def)

lemma rollback_keeps_scopes:
  assumes "all_scopes_present (store w)"
  shows "\<exists>w'. rollback sc i w = Inr w' \<and> all_scopes_present (store w')"
proof -
  have "all_scopes_present (store (add_effect ConsoleError w))"
    using assms by (simp add: add_effect_def)
  from set_store_keeps_scopes
    [where f = "remove_upd sc i" and w = "add_effect ConsoleError w",
      OF updaters_keep_scopes(3) [OF this]]
  obtain w' where "set_store (remove_upd sc i) (add_effect ConsoleError w) = Inr w'"
    and "all_scopes_present (store w')"
    by blast
  then show ?thesis
    by (simp add: rollback_def add_effect_def)
qed

lemma addNote_settle_keeps_scopes:
  assumes "all_scopes_present (store w)"
  shows "\<exists>w'. addNote_settle sc i outcome w = Inr w' \<and> all_scopes_present (store w')"
  using assms rollback_keeps_scopes [OF assms, of sc i]
    set_store_keeps_scopes [where w = w and f = "replaceIdentifier sc i x" for x,
      OF updaters_keep_scopes(2) [OF assms]]
  by (auto simp: addNote_settle_def split: fetch_outcome.splits body.splits option.splits)

lemma addNote_keeps_scopes:
  assumes "all_scopes_present (store w)"
  shows "\<exists>w'. addNote e outcome w = Inr w' \<and> all_scopes_present (store w')"
proof (cases "trim (input w) = []")
  case True
  with assms show ?thesis
    by (simp add: addNote_def addNote_start_def)
next
  case False
  let ?n = "\<lparr>note_id = temp_id e, note_text = trim (input w), createdAt = Finite (now_created e),
      note_done = False\<rparr>"
  from set_store_keeps_scopes [where w = w and f = "insert_upd (scope w) ?n",
      OF updaters_keep_scopes(1) [OF assms]]
  obtain w1 where w1: "set_store (insert_upd (scope w) ?n) w = Inr w1"
    and p1: "all_scopes_present (store w1)"
    by blast
  let ?w2 = "add_effect (Post API_URL (scope w) (request_body (scope w) (trim (input w))))
      (w1\<lparr>input := []\<rparr>)"
  have "all_scopes_present (store ?w2)"
    using p1 by (simp add: add_effect_def)
  from addNote_settle_keeps_scopes [OF this, of "scope w" "temp_id e" outcome]
  show ?thesis
    using False w1 by (simp add: addNote_def addNote_start_def Let_def)
qed

lemma loaded_store_has_scopes:
  assumes "loadStore st = js_of_store s"
  shows "all_scopes_present s"
  unfolding all_scopes_present_iff
proof
  fix sc
  from get_prop_loadStore_present [of st sc] assms show "s sc \<noteq> None"
    by (auto simp: get_prop_js_of_store simp del: scope_name.simps)
qed

lemma loadStore_no_items: "items st = [] \<Longrightarrow> loadStore st = js_of_store emptyStore"
  by (simp add: loadStore_cases getItem_def)

section \<open>Loading and saving\<close>

text \<open>
  C3, as stated, fails on a stored value that gives a scope something other than an array:
  \<open>{ ...empty, ...parsed }\<close> takes it as it is.
\<close>

theorem loadStore_malformed_scope_counterexample:
  "getItem storage_today_5 LS_KEY = Inr (Some raw_today_5)
   \<and> JSON_parse raw_today_5 = Some (JObj [(js ''today'', JNum 5)])
   \<and> get_prop (loadStore storage_today_5) (scope_name Today) = Some (JNum 5)"
proof -
  have g: "getItem storage_today_5 LS_KEY = Inr (Some raw_today_5)"
    by (simp add: getItem_def storage_today_5_def)
  have p: "JSON_parse raw_today_5 = Some (JObj [(js ''today'', JNum 5)])"
    by code_simp
  from get_prop_loadStore_parsed [OF g p, of Today] have
    "get_prop (loadStore storage_today_5) (scope_name Today) = Some (JNum 5)"
    by (simp add: get_prop_def)
  with g p show ?thesis
    by simp
qed

text \<open>
  C3, amended. \<open>loadStore\<close> always returns a value. It returns the default collection,
  with all five scopes empty, when reading the storage throws, when the key is missing and
  when the stored text does not parse. When the text parses, a scope that the parsed value
  lacks is the empty sequence in the result, and a scope that it has keeps the parsed value,
  whatever that is.
\<close>

theorem loadStore_fallback_and_defaults:
  "(getItem st LS_KEY = Inl e \<longrightarrow> loadStore st = js_of_store emptyStore)
   \<and> (getItem st LS_KEY = Inr None \<longrightarrow> loadStore st = js_of_store emptyStore)
   \<and> (getItem st LS_KEY = Inr (Some raw) \<and> JSON_parse raw = None
        \<longrightarrow> loadStore st = js_of_store emptyStore)
   \<and> (getItem st LS_KEY = Inr (Some raw) \<and> JSON_parse raw = Some parsed
        \<longrightarrow> (\<forall>sc. get_prop (loadStore st) (scope_name sc)
                    = (case get_prop parsed (scope_name sc) of
                         None \<Rightarrow> Some (JArr [])
                       | Some v \<Rightarrow> Some v)))
   \<and> (\<forall>sc. get_prop (js_of_store emptyStore) (scope_name sc) = Some (JArr []))"
  using get_prop_loadStore_parsed [of st raw parsed]
  by (simp add: loadStore_cases get_prop_empty_store del: scope_name.simps)

lemma parse_raw_week_b:
  "JSON_parse raw_week_b = Some (JObj [(js ''week'', JArr [js_of_note note_b])])"
proof -
  have eq: "raw_week_b = stringify_store [Week \<mapsto> [note_b]]"
    by (simp add: raw_week_b_def stringify_store_def present_scopes_def List.map_filter_def
        SCOPES_def stringify_member_def)
  have v: "js_of_store [Week \<mapsto> [note_b]] = JObj [(js ''week'', JArr [js_of_note note_b])]"
    by (simp add: js_of_store_def present_scopes_def List.map_filter_def SCOPES_def)
  have fw: "finite_timestamps [Week \<mapsto> [note_b]]"
    by (simp add: finite_timestamps_def SCOPES_def is_finite_def note_b_def at_ms_def)
  show ?thesis
    unfolding eq by (simp only: JSON_parse_stringify_store written_store_finite [OF fw] v)
qed

lemma get_prop_week_only:
  "get_prop (JObj [(js ''week'', v)]) (scope_name Today) = None"
  "get_prop (JObj [(js ''week'', v)]) (scope_name Week) = Some v"
  by (simp_all add: get_prop_def js_def cu_def)

theorem loadStore_fallback_and_defaults_witness:
  "getItem storage_denied LS_KEY = Inl SecurityError
   \<and> loadStore storage_denied = js_of_store emptyStore
   \<and> getItem storage_fresh LS_KEY = Inr None
   \<and> loadStore storage_fresh = js_of_store emptyStore
   \<and> getItem storage_garbage LS_KEY = Inr (Some (js ''{oops''))
   \<and> JSON_parse (js ''{oops'') = None
   \<and> loadStore storage_garbage = js_of_store emptyStore
   \<and> getItem storage_week_b LS_KEY = Inr (Some raw_week_b)
   \<and> JSON_parse raw_week_b = Some (JObj [(js ''week'', JArr [js_of_note note_b])])
   \<and> get_prop (loadStore storage_week_b) (scope_name Today) = Some (JArr [])
   \<and> get_prop (loadStore storage_week_b) (scope_name Week) = Some (JArr [js_of_note note_b])"
proof -
  have d: "getItem storage_denied LS_KEY = Inl SecurityError"
    by (simp add: getItem_def storage_denied_def)
  have g: "getItem storage_week_b LS_KEY = Inr (Some raw_week_b)"
    by (simp add: getItem_def storage_week_b_def)
  note p = parse_raw_week_b
  have t: "get_prop (JObj [(js ''week'', JArr [js_of_note note_b])]) (scope_name Today) = None"
    and w: "get_prop (JObj [(js ''week'', JArr [js_of_note note_b])]) (scope_name Week)
      = Some (JArr [js_of_note note_b])"
    by (simp_all add: get_prop_def js_def cu_def)
  have l: "loadStore storage_denied = js_of_store emptyStore"
    using loadStore_fallback_and_defaults [of storage_denied SecurityError] d by blast
  have f: "getItem storage_fresh LS_KEY = Inr None"
    by (simp add: getItem_def storage_fresh_def)
  have lf: "loadStore storage_fresh = js_of_store emptyStore"
    using loadStore_fallback_and_defaults [of storage_fresh] f by blast
  have b: "getItem storage_garbage LS_KEY = Inr (Some (js ''{oops''))"
    by (simp add: getItem_def storage_garbage_def)
  have pb: "JSON_parse (js ''{oops'') = None"
    by code_simp
  have lb: "loadStore storage_garbage = js_of_store emptyStore"
    using loadStore_fallback_and_defaults [of storage_garbage _ "js ''{oops''"] b pb by blast
  have a: "get_prop (loadStore storage_week_b) (scope_name sc)
      = (case get_prop (JObj [(js ''week'', JArr [js_of_note note_b])]) (scope_name sc) of
           None \<Rightarrow> Some (JArr [])
         | Some v \<Rightarrow> Some v)" for sc
    using loadStore_fallback_and_defaults
      [of storage_week_b _ raw_week_b "JObj [(js ''week'', JArr [js_of_note note_b])]"] g p
    by blast
  have "get_prop (loadStore storage_week_b) (scope_name Today) = Some (JArr [])"
    and "get_prop (loadStore storage_week_b) (scope_name Week) = Some (JArr [js_of_note note_b])"
    by (simp_all only: a t w option.case)
  with d g p l f lf b pb lb show ?thesis
    by (simp only: simp_thms)
qed






text \<open>
  C5, as stated, fails for the value that \<open>loadStore\<close> returns: a scope that the stored
  value gives as \<open>null\<close> is there, and it is not a sequence.
\<close>

theorem loadStore_not_a_sequence_counterexample:
  "getItem storage_week_null LS_KEY = Inr (Some raw_week_null)
   \<and> JSON_parse raw_week_null = Some (JObj [(js ''week'', JNull)])
   \<and> get_prop (loadStore storage_week_null) (scope_name Week) = Some JNull"
proof -
  have g: "getItem storage_week_null LS_KEY = Inr (Some raw_week_null)"
    by (simp add: getItem_def storage_week_null_def)
  have p: "JSON_parse raw_week_null = Some (JObj [(js ''week'', JNull)])"
    by code_simp
  from get_prop_loadStore_parsed [OF g p, of Week] have
    "get_prop (loadStore storage_week_null) (scope_name Week) = Some JNull"
    by (simp add: get_prop_def)
  with g p show ?thesis
    by simp
qed

text \<open>
  C5, amended. The value that \<open>loadStore\<close> returns has every one of the five scope keys,
  whatever the storage holds. When reading the storage throws, when nothing is stored and
  when the stored text does not parse, every scope is the empty sequence. When the text
  parses, a scope that the parsed value omits is the empty sequence and a scope that it
  gives is the value given: a sequence if that is a sequence, and otherwise whatever it is.
  Whenever the loaded value is a store, that store has all five scopes. Every operation that
  changes the store (optimistic insert, identifier replacement, removal at rollback or by
  \<open>removeNote\<close>, \<open>toggleDone\<close>, \<open>clearAll\<close>, a whole \<open>addNote\<close>) succeeds on a store
  that has all five scopes and returns one that has them.
\<close>

theorem scopes_stay_present:
  "(\<forall>sc. \<exists>v. get_prop (loadStore st) (scope_name sc) = Some v)
   \<and> (getItem st LS_KEY = Inl err \<longrightarrow>
        (\<forall>sc. get_prop (loadStore st) (scope_name sc) = Some (JArr [])))
   \<and> (getItem st LS_KEY = Inr None \<longrightarrow>
        (\<forall>sc. get_prop (loadStore st) (scope_name sc) = Some (JArr [])))
   \<and> (getItem st LS_KEY = Inr (Some raw) \<and> JSON_parse raw = None \<longrightarrow>
        (\<forall>sc. get_prop (loadStore st) (scope_name sc) = Some (JArr [])))
   \<and> (getItem st LS_KEY = Inr (Some raw) \<and> JSON_parse raw = Some parsed \<longrightarrow>
        (\<forall>sc. (get_prop parsed (scope_name sc) = None \<longrightarrow>
                 get_prop (loadStore st) (scope_name sc) = Some (JArr []))
              \<and> (\<forall>xs. get_prop parsed (scope_name sc) = Some (JArr xs) \<longrightarrow>
                     get_prop (loadStore st) (scope_name sc) = Some (JArr xs))
              \<and> (\<forall>v. get_prop parsed (scope_name sc) = Some v \<longrightarrow>
                     get_prop (loadStore st) (scope_name sc) = Some v)))
   \<and> (items st = [] \<longrightarrow> loadStore st = js_of_store emptyStore)
   \<and> all_scopes_present emptyStore
   \<and> (\<forall>s. loadStore st = js_of_store s \<longrightarrow> all_scopes_present s)
   \<and> (all_scopes_present s \<longrightarrow>
        (\<exists>s'. insert_upd sc n s = Inr s' \<and> all_scopes_present s')
        \<and> (\<exists>s'. replaceIdentifier sc oldId newId s = Inr s' \<and> all_scopes_present s')
        \<and> (\<exists>s'. remove_upd sc i s = Inr s' \<and> all_scopes_present s')
        \<and> (\<exists>s'. toggle_upd sc i s = Inr s' \<and> all_scopes_present s')
        \<and> all_scopes_present (clear_upd sc s))
   \<and> (all_scopes_present (store w) \<longrightarrow>
        (\<exists>w'. toggleDone i w = Inr w' \<and> all_scopes_present (store w'))
        \<and> (\<exists>w'. removeNote i w = Inr w' \<and> all_scopes_present (store w'))
        \<and> (\<exists>w'. clearAll confirmed w = Inr w' \<and> all_scopes_present (store w'))
        \<and> (\<exists>w'. addNote e outcome w = Inr w' \<and> all_scopes_present (store w')))"
proof -
  have load: "\<forall>sc. \<exists>v. get_prop (loadStore st) (scope_name sc) = Some v"
    using get_prop_loadStore_present by blast
  have fallback: "\<forall>sc. get_prop (loadStore st) (scope_name sc) = Some (JArr [])"
    if "loadStore st = js_of_store emptyStore"
    using that by (simp add: get_prop_empty_store del: scope_name.simps)
  have thrown: "getItem st LS_KEY = Inl err \<longrightarrow>
      (\<forall>sc. get_prop (loadStore st) (scope_name sc) = Some (JArr []))"
    by (simp add: loadStore_cases get_prop_empty_store del: scope_name.simps)
  have missing: "getItem st LS_KEY = Inr None \<longrightarrow>
      (\<forall>sc. get_prop (loadStore st) (scope_name sc) = Some (JArr []))"
    by (simp add: loadStore_cases get_prop_empty_store del: scope_name.simps)
  have unparsed: "getItem st LS_KEY = Inr (Some raw) \<and> JSON_parse raw = None \<longrightarrow>
      (\<forall>sc. get_prop (loadStore st) (scope_name sc) = Some (JArr []))"
    by (simp add: loadStore_cases get_prop_empty_store del: scope_name.simps)
  have parsed: "getItem st LS_KEY = Inr (Some raw) \<and> JSON_parse raw = Some parsed \<longrightarrow>
      (\<forall>sc. (get_prop parsed (scope_name sc) = None \<longrightarrow>
               get_prop (loadStore st) (scope_name sc) = Some (JArr []))
            \<and> (\<forall>xs. get_prop parsed (scope_name sc) = Some (JArr xs) \<longrightarrow>
                   get_prop (loadStore st) (scope_name sc) = Some (JArr xs))
            \<and> (\<forall>v. get_prop parsed (scope_name sc) = Some v \<longrightarrow>
                   get_prop (loadStore st) (scope_name sc) = Some v))"
  proof (intro impI allI conjI)
    fix sc
    assume a: "getItem st LS_KEY = Inr (Some raw) \<and> JSON_parse raw = Some parsed"
    note r = get_prop_loadStore_parsed [OF conjunct1 [OF a] conjunct2 [OF a], of sc]
    show "get_prop (loadStore st) (scope_name sc) = Some (JArr [])"
      if "get_prop parsed (scope_name sc) = None"
      using that r by (simp del: scope_name.simps)
    show "get_prop (loadStore st) (scope_name sc) = Some (JArr xs)"
      if "get_prop parsed (scope_name sc) = Some (JArr xs)" for xs
      using that r by (simp del: scope_name.simps)
    show "get_prop (loadStore st) (scope_name sc) = Some v"
      if "get_prop parsed (scope_name sc) = Some v" for v
      using that r by (simp del: scope_name.simps)
  qed
  have empty: "all_scopes_present emptyStore"
    by (simp add: all_scopes_present_def SCOPES_def emptyStore_def)
  have widget: "(\<exists>w'. toggleDone i w = Inr w' \<and> all_scopes_present (store w'))
      \<and> (\<exists>w'. removeNote i w = Inr w' \<and> all_scopes_present (store w'))
      \<and> (\<exists>w'. clearAll confirmed w = Inr w' \<and> all_scopes_present (store w'))
      \<and> (\<exists>w'. addNote e outcome w = Inr w' \<and> all_scopes_present (store w'))"
    if p: "all_scopes_present (store w)"
  proof -
    have "\<exists>w'. toggleDone i w = Inr w' \<and> all_scopes_present (store w')"
      unfolding toggleDone_def
      by (rule set_store_keeps_scopes) (rule updaters_keep_scopes(4) [OF p])
    moreover have "\<exists>w'. removeNote i w = Inr w' \<and> all_scopes_present (store w')"
      unfolding removeNote_def
      by (rule set_store_keeps_scopes) (rule updaters_keep_scopes(3) [OF p])
    moreover have "\<exists>w'. clearAll confirmed w = Inr w' \<and> all_scopes_present (store w')"
      using p updaters_keep_scopes(5) [OF p, of "scope w"]
      by (simp add: clearAll_def set_store_def)
    ultimately show ?thesis
      using addNote_keeps_scopes [OF p] by blast
  qed
  have updaters: "all_scopes_present s \<longrightarrow>
      (\<exists>s'. insert_upd sc n s = Inr s' \<and> all_scopes_present s')
      \<and> (\<exists>s'. replaceIdentifier sc oldId newId s = Inr s' \<and> all_scopes_present s')
      \<and> (\<exists>s'. remove_upd sc i s = Inr s' \<and> all_scopes_present s')
      \<and> (\<exists>s'. toggle_upd sc i s = Inr s' \<and> all_scopes_present s')
      \<and> all_scopes_present (clear_upd sc s)"
    using updaters_keep_scopes [of s] by blast
  have loaded: "\<forall>s. loadStore st = js_of_store s \<longrightarrow> all_scopes_present s"
    using loaded_store_has_scopes [of st] by blast
  have no_items: "items st = [] \<longrightarrow> loadStore st = js_of_store emptyStore"
    using loadStore_no_items [of st] by blast
  have widget': "all_scopes_present (store w) \<longrightarrow>
      (\<exists>w'. toggleDone i w = Inr w' \<and> all_scopes_present (store w'))
      \<and> (\<exists>w'. removeNote i w = Inr w' \<and> all_scopes_present (store w'))
      \<and> (\<exists>w'. clearAll confirmed w = Inr w' \<and> all_scopes_present (store w'))
      \<and> (\<exists>w'. addNote e outcome w = Inr w' \<and> all_scopes_present (store w'))"
    using widget by (rule impI)
  show ?thesis
    by (intro conjI)
      (rule load, rule thrown, rule missing, rule unparsed, rule parsed, rule no_items,
        rule empty, rule loaded, rule updaters, rule widget')
qed

theorem scopes_stay_present_witness:
  "items storage_fresh = []
   \<and> getItem storage_fresh LS_KEY = Inr None
   \<and> loadStore storage_fresh = js_of_store emptyStore
   \<and> get_prop (loadStore storage_fresh) (scope_name Year) = Some (JArr [])
   \<and> getItem storage_week_b LS_KEY = Inr (Some raw_week_b)
   \<and> JSON_parse raw_week_b = Some (JObj [(js ''week'', JArr [js_of_note note_b])])
   \<and> get_prop (JObj [(js ''week'', JArr [js_of_note note_b])]) (scope_name Today) = None
   \<and> get_prop (loadStore storage_week_b) (scope_name Today) = Some (JArr [])
   \<and> get_prop (JObj [(js ''week'', JArr [js_of_note note_b])]) (scope_name Week)
       = Some (JArr [js_of_note note_b])
   \<and> get_prop (loadStore storage_week_b) (scope_name Week) = Some (JArr [js_of_note note_b])
   \<and> all_scopes_present (store widget_ab_milk)
   \<and> all_scopes_present store_ab
   \<and> all_scopes_present (clear_upd Week store_ab)"
proof -
  have i: "items storage_fresh = []"
    by (simp add: storage_fresh_def)
  have f: "getItem storage_fresh LS_KEY = Inr None"
    by (simp add: getItem_def storage_fresh_def)
  have g: "getItem storage_week_b LS_KEY = Inr (Some raw_week_b)"
    by (simp add: getItem_def storage_week_b_def)
  have p: "all_scopes_present store_ab"
    by (simp add: all_scopes_present_def SCOPES_def store_ab_def emptyStore_def)
  then have pw: "all_scopes_present (store widget_ab_milk)"
    by (simp add: widget_ab_milk_def)
  note fresh = scopes_stay_present [where st = storage_fresh and s = store_ab and sc = Week
      and w = widget_ab_milk]
  note stored = scopes_stay_present [where st = storage_week_b and raw = raw_week_b
      and parsed = "JObj [(js ''week'', JArr [js_of_note note_b])]" and s = store_ab
      and w = widget_ab_milk]
  from fresh i have l: "loadStore storage_fresh = js_of_store emptyStore"
    by blast
  from fresh f have y: "get_prop (loadStore storage_fresh) (scope_name Year) = Some (JArr [])"
    by blast
  from fresh p have c: "all_scopes_present (clear_upd Week store_ab)"
    by blast
  note t = get_prop_week_only(1) [of "JArr [js_of_note note_b]"]
  note k = get_prop_week_only(2) [of "JArr [js_of_note note_b]"]
  from stored g parse_raw_week_b t
  have lt: "get_prop (loadStore storage_week_b) (scope_name Today) = Some (JArr [])"
    by blast
  from stored g parse_raw_week_b k
  have lw: "get_prop (loadStore storage_week_b) (scope_name Week) = Some (JArr [js_of_note note_b])"
    by blast
  from i f l y g parse_raw_week_b t lt k lw pw p c show ?thesis
    by (simp only: simp_thms)
qed

end
